theory Spec2Isabelle
  imports Main
begin

section \<open>Data model (types.ts)\<close>

text \<open>
  The interfaces of \<^verbatim>\<open>types.ts\<close> as records. Several interfaces share field names
  (\<open>sha\<close>, \<open>path\<close>, \<open>repo\<close>); such a field is written with its record's name in front
  (\<open>FileEntry.sha\<close>, \<open>TreeEntry.sha\<close>, \<open>ScrapedFile.sha\<close>).

  \<^item> A JavaScript object used as a dictionary (\<open>Record<string, V>\<close>) is a map
    \<open>string \<rightharpoonup> V\<close>. The keys the scraper uses are repository full names and file paths.
  \<^item> \<open>lastFetched\<close> is declared \<open>number\<close>, but the scraper guards a stored entry without
    the field (\<open>prevEntry.lastFetched ?? Date.now()\<close>): the field is \<open>int option\<close>, \<open>None\<close>
    for a missing (undefined or null) field. Timestamps are milliseconds since the epoch.
  \<^item> \<open>lastScrape\<close> holds the instant whose ISO rendering the code stores
    (\<open>new Date().toISOString()\<close>).
\<close>

record FileEntry =
  sha :: string
  lastFetched :: "int option"

record RepoCache =
  files :: "string \<rightharpoonup> FileEntry"

record ScrapeState =
  repos :: "string \<rightharpoonup> RepoCache"
  lastScrape :: "int option"

record ScrapedFile =
  repo :: string
  path :: string
  content :: string
  sha :: string

datatype Phase = Phase_repos | Phase_tree | Phase_files | Phase_done | Phase_error

record ScrapeProgress =
  phase :: Phase
  repo :: "string option"
  fetched :: nat
  skipped :: nat
  total :: nat
  message :: "string option"

text \<open>
  \<open>repoFilter\<close> is the predicate \<open>s \<mapsto> repoFilter.test(s)\<close> of the regular expression
  (a pattern without the global or sticky flag, as the command line builds it, so that
  \<open>test\<close> has no state). \<open>onProgress\<close> says whether a callback is supplied; the events it is
  called with are collected in the run's \<open>events\<close>. The callback itself is assumed to return.
\<close>

record ScrapeConfig =
  org :: string
  token :: "string option"
  repoFilter :: "(string \<Rightarrow> bool) option"
  onProgress :: bool

section \<open>The remote client (github.ts) and the clock, as the environment\<close>

datatype error = Error string | TypeError string

fun error_message :: "error \<Rightarrow> string" where
  "error_message (Error m) = m"
| "error_message (TypeError m) = m"

record RepoDescriptor =
  name :: string
  full_name :: string
  default_branch :: string

record TreeEntry =
  path :: string
  sha :: string
  type :: string

text \<open>
  The three operations of the client are functions of their arguments that either throw
  (\<open>Inl\<close>) or return (\<open>Inr\<close>); the Octokit handle is left out. An argument that can be
  \<open>undefined\<close> at run time (the parts of a destructured \<open>split\<close>) is a \<open>string option\<close>.

  The system clock is a function \<open>clock\<close>: \<open>clock k\<close> is what the \<open>k\<close>-th reading during the
  run (\<open>new Date()\<close>, \<open>Date.now()\<close>) returns; the run counts its readings in \<open>ticks\<close>.
\<close>

record Remote =
  listOrgRepos :: "string \<Rightarrow> error + RepoDescriptor list"
  getRepoTree :: "string option \<Rightarrow> string option \<Rightarrow> string \<Rightarrow> error + TreeEntry list"
  getFileContent :: "string option \<Rightarrow> string option \<Rightarrow> string \<Rightarrow> error + string"

datatype Request =
    ListOrgRepos string
  | GetRepoTree "string option" "string option" string
  | GetFileContent "string option" "string option" string

section \<open>The state of one run of scrapeOrg\<close>

text \<open>
  The local variables of \<open>scrapeOrg\<close> (\<open>newState\<close>, \<open>results\<close> and the three counters)
  and its effects: the events passed to \<open>onProgress\<close>, the lines written by
  \<open>console.warn\<close>, the requests made to the client, and the number of clock readings.
\<close>

record Run =
  newState :: ScrapeState
  results :: "ScrapedFile list"
  totalFetched :: nat
  totalSkipped :: nat
  totalFiles :: nat
  events :: "ScrapeProgress list"
  warnings :: "string list"
  requests :: "Request list"
  ticks :: nat

datatype completion = Normal Run | Abrupt error Run

definition Date_now :: "(nat \<Rightarrow> int) \<Rightarrow> Run \<Rightarrow> int \<times> Run" where
  "Date_now clock st = (clock (ticks st), st\<lparr>ticks := Suc (ticks st)\<rparr>)"

text \<open>
  \<open>emit\<close> fills the counters an event does not give with 0 and hands the event to the
  callback, if there is one.
\<close>

definition emit ::
  "ScrapeConfig \<Rightarrow> Phase \<Rightarrow> string option \<Rightarrow> nat option \<Rightarrow> nat option \<Rightarrow> nat option \<Rightarrow>
   string option \<Rightarrow> Run \<Rightarrow> Run" where
  "emit config ph rp f s t msg st =
     (if onProgress config
      then st\<lparr>events := events st @
             [\<lparr>phase = ph, repo = rp,
               fetched = (case f of None \<Rightarrow> 0 | Some n \<Rightarrow> n),
               skipped = (case s of None \<Rightarrow> 0 | Some n \<Rightarrow> n),
               total = (case t of None \<Rightarrow> 0 | Some n \<Rightarrow> n),
               message = msg\<rparr>]\<rparr>
      else st)"

section \<open>scrapeOrg (scraper.ts)\<close>

text \<open>\<open>s.split('/')\<close> and the destructuring \<open>const [owner, repoName] = ...\<close>.\<close>

fun split_on :: "char \<Rightarrow> string \<Rightarrow> string list" where
  "split_on c [] = [[]]"
| "split_on c (x # xs) =
     (if x = c then [] # split_on c xs
      else (case split_on c xs of [] \<Rightarrow> [[x]] | w # ws \<Rightarrow> (x # w) # ws))"

definition owner_and_repoName :: "string \<Rightarrow> string option \<times> string option" where
  "owner_and_repoName full =
     (case split_on CHR ''/'' full of
        [] \<Rightarrow> (None, None)
      | [a] \<Rightarrow> (Some a, None)
      | a # b # _ \<Rightarrow> (Some a, Some b))"

text \<open>\<open>prevState.repos[repo.full_name]?.files[file.path]\<close>\<close>

definition prev_entry :: "ScrapeState \<Rightarrow> string \<Rightarrow> string \<Rightarrow> FileEntry option" where
  "prev_entry prevState rn p =
     (case repos prevState rn of None \<Rightarrow> None | Some rc \<Rightarrow> files rc p)"

text \<open>\<open>prevEntry?.sha === file.sha\<close>: false when there is no previous entry.\<close>

definition same_sha :: "FileEntry option \<Rightarrow> TreeEntry \<Rightarrow> bool" where
  "same_sha prevEntry file =
     (case prevEntry of None \<Rightarrow> False | Some e \<Rightarrow> FileEntry.sha e = TreeEntry.sha file)"

text \<open>
  \<open>prevEntry?.sha === file.sha ? (prevEntry.lastFetched ?? Date.now()) : Date.now()\<close>:
  the clock is read only where \<open>Date.now()\<close> is evaluated.
\<close>

definition new_lastFetched ::
  "(nat \<Rightarrow> int) \<Rightarrow> FileEntry option \<Rightarrow> TreeEntry \<Rightarrow> Run \<Rightarrow> int \<times> Run" where
  "new_lastFetched clock prevEntry file st =
     (if same_sha prevEntry file
      then (case prevEntry of
              None \<Rightarrow> Date_now clock st
            | Some e \<Rightarrow> (case lastFetched e of
                          Some t \<Rightarrow> (t, st)
                        | None \<Rightarrow> Date_now clock st))
      else Date_now clock st)"

text \<open>
  One iteration of the loop over \<open>mdFiles\<close> (lines 60 to 89). The assignment to
  \<open>newState.repos[repo.full_name].files[file.path]\<close> reads the bucket first; without a
  bucket JavaScript throws a TypeError before the right-hand side is evaluated.
\<close>

definition file_step ::
  "(nat \<Rightarrow> int) \<Rightarrow> Remote \<Rightarrow> ScrapeConfig \<Rightarrow> ScrapeState \<Rightarrow> RepoDescriptor \<Rightarrow> string option \<Rightarrow> string option \<Rightarrow>
   Run \<Rightarrow> TreeEntry \<Rightarrow> completion" where
  "file_step clock env config prevState r owner repoName st file =
     (let prevEntry = prev_entry prevState (full_name r) (TreeEntry.path file) in
      case repos (newState st) (full_name r) of
        None \<Rightarrow> Abrupt (TypeError ''Cannot read properties of undefined'') st
      | Some bucket \<Rightarrow>
          let (stamp, st1) = new_lastFetched clock prevEntry file st;
              entry = \<lparr>FileEntry.sha = TreeEntry.sha file, lastFetched = Some stamp\<rparr>;
              st2 = st1\<lparr>newState := (newState st1)\<lparr>repos := (repos (newState st1))
                      (full_name r \<mapsto> bucket\<lparr>files := (files bucket)(TreeEntry.path file \<mapsto> entry)\<rparr>)\<rparr>\<rparr>
          in
          if same_sha prevEntry file then
            (let st3 = st2\<lparr>totalSkipped := totalSkipped st2 + 1\<rparr> in
             Normal (emit config Phase_files (Some (full_name r)) (Some (totalFetched st3))
                       (Some (totalSkipped st3)) (Some (totalFiles st3)) None st3))
          else
            (let st3 = emit config Phase_files (Some (full_name r)) (Some (totalFetched st2))
                         (Some (totalSkipped st2)) (Some (totalFiles st2))
                         (Some (''Fetching '' @ full_name r @ ''/'' @ TreeEntry.path file)) st2;
                 st4 = st3\<lparr>requests := requests st3 @ [GetFileContent owner repoName (TreeEntry.path file)]\<rparr>
             in
             case getFileContent env owner repoName (TreeEntry.path file) of
               Inr c \<Rightarrow>
                 Normal (st4\<lparr>results := results st4 @
                                 [\<lparr>ScrapedFile.repo = full_name r, ScrapedFile.path = TreeEntry.path file,
                                   content = c, ScrapedFile.sha = TreeEntry.sha file\<rparr>],
                              totalFetched := totalFetched st4 + 1\<rparr>)
             | Inl err \<Rightarrow>
                 Normal (st4\<lparr>warnings := warnings st4 @
                                 [''Failed to fetch '' @ full_name r @ ''/'' @ TreeEntry.path file @
                                  '': '' @ error_message err]\<rparr>)))"

fun file_loop ::
  "(nat \<Rightarrow> int) \<Rightarrow> Remote \<Rightarrow> ScrapeConfig \<Rightarrow> ScrapeState \<Rightarrow> RepoDescriptor \<Rightarrow> string option \<Rightarrow> string option \<Rightarrow>
   Run \<Rightarrow> TreeEntry list \<Rightarrow> completion" where
  "file_loop clock env config prevState r owner repoName st [] = Normal st"
| "file_loop clock env config prevState r owner repoName st (file # rest) =
     (case file_step clock env config prevState r owner repoName st file of
        Abrupt e st' \<Rightarrow> Abrupt e st'
      | Normal st' \<Rightarrow> file_loop clock env config prevState r owner repoName st' rest)"

text \<open>One iteration of the loop over \<open>repos\<close> (lines 44 to 90).\<close>

definition repo_step ::
  "(nat \<Rightarrow> int) \<Rightarrow> Remote \<Rightarrow> ScrapeConfig \<Rightarrow> ScrapeState \<Rightarrow> Run \<Rightarrow> RepoDescriptor \<Rightarrow> completion" where
  "repo_step clock env config prevState st r =
     (let (owner, repoName) = owner_and_repoName (full_name r);
          st1 = emit config Phase_tree (Some (full_name r)) (Some (totalFetched st))
                  (Some (totalSkipped st)) (Some (totalFiles st)) None st;
          st2 = st1\<lparr>requests := requests st1 @ [GetRepoTree owner repoName (default_branch r)]\<rparr>
      in
      case getRepoTree env owner repoName (default_branch r) of
        Inl err \<Rightarrow>
          Normal (st2\<lparr>warnings := warnings st2 @
                         [''Skipping '' @ full_name r @ '': '' @ error_message err]\<rparr>)
      | Inr mdFiles \<Rightarrow>
          (let st3 = st2\<lparr>totalFiles := totalFiles st2 + length mdFiles\<rparr>;
               st4 = st3\<lparr>newState := (newState st3)\<lparr>repos := (repos (newState st3))
                       (full_name r \<mapsto> \<lparr>files = Map.empty\<rparr>)\<rparr>\<rparr>
           in file_loop clock env config prevState r owner repoName st4 mdFiles))"

fun repo_loop ::
  "(nat \<Rightarrow> int) \<Rightarrow> Remote \<Rightarrow> ScrapeConfig \<Rightarrow> ScrapeState \<Rightarrow> Run \<Rightarrow> RepoDescriptor list \<Rightarrow> completion" where
  "repo_loop clock env config prevState st [] = Normal st"
| "repo_loop clock env config prevState st (r # rest) =
     (case repo_step clock env config prevState st r of
        Abrupt e st' \<Rightarrow> Abrupt e st'
      | Normal st' \<Rightarrow> repo_loop clock env config prevState st' rest)"

text \<open>
  \<open>allRepos.filter((r) => repoFilter.test(r.name))\<close> when a filter is given.
\<close>

definition retained :: "ScrapeConfig \<Rightarrow> RepoDescriptor list \<Rightarrow> RepoDescriptor list" where
  "retained config allRepos =
     (case repoFilter config of
        None \<Rightarrow> allRepos
      | Some re \<Rightarrow> filter (\<lambda>r. re (name r)) allRepos)"

text \<open>
  The state before the repositories are listed: \<open>newState\<close> with the first clock reading
  as \<open>lastScrape\<close>, no results, the \<open>repos\<close> event emitted, the listing requested.
\<close>

definition start :: "(nat \<Rightarrow> int) \<Rightarrow> ScrapeConfig \<Rightarrow> Run" where
  "start clock config =
     (let st0 = \<lparr>newState = \<lparr>repos = Map.empty, lastScrape = Some (clock 0)\<rparr>,
                 results = [], totalFetched = 0, totalSkipped = 0, totalFiles = 0,
                 events = [], warnings = [], requests = [], ticks = 1\<rparr>;
          st1 = emit config Phase_repos None None None None
                  (Some (''Listing repositories for '' @ org config @ [CHR 0xE2, CHR 0x80, CHR 0xA6])) st0
      in st1\<lparr>requests := requests st1 @ [ListOrgRepos (org config)]\<rparr>)"

text \<open>
  The whole function. The first component is the promise's outcome: rejected with an
  error (\<open>Inl\<close>) or resolved with \<open>{ files, state }\<close> (\<open>Inr\<close>); the second is the final
  state of the run, which holds the effects. An absent \<open>prevState\<close> argument defaults to
  \<open>{ repos: {} }\<close>.
\<close>

definition default_prevState :: "ScrapeState option \<Rightarrow> ScrapeState" where
  "default_prevState arg =
     (case arg of None \<Rightarrow> \<lparr>repos = Map.empty, lastScrape = None\<rparr> | Some s \<Rightarrow> s)"

definition scrapeOrg ::
  "(nat \<Rightarrow> int) \<Rightarrow> Remote \<Rightarrow> ScrapeConfig \<Rightarrow> ScrapeState option \<Rightarrow>
   (error + ScrapedFile list \<times> ScrapeState) \<times> Run" where
  "scrapeOrg clock env config prevStateArg =
     (let prevState = default_prevState prevStateArg;
          st = start clock config
      in
      case listOrgRepos env (org config) of
        Inl err \<Rightarrow> (Inl err, st)
      | Inr allRepos \<Rightarrow>
          (case repo_loop clock env config prevState st (retained config allRepos) of
             Abrupt e st' \<Rightarrow> (Inl e, st')
           | Normal st' \<Rightarrow>
               (let st'' = emit config Phase_done None (Some (totalFetched st'))
                             (Some (totalSkipped st')) (Some (totalFiles st')) None st'
                in (Inr (results st'', newState st''), st''))))"


section \<open>scrapeOrg on an object store\<close>

text \<open>
  The same function once more, with the objects it reads and writes kept in an explicit
  store, so that sharing and mutation can be stated. An object is one of the shapes of
  \<^verbatim>\<open>types.ts\<close>: a \<open>ScrapeState\<close> (\<open>State repos lastScrape\<close>), a dictionary
  \<open>Record<string, _>\<close> whose values are references (\<open>Dict\<close>), a \<open>RepoCache\<close>
  (\<open>Cache files\<close>) or a \<open>FileEntry\<close> (\<open>Entry sha lastFetched\<close>); strings and numbers are
  values, not objects. A heap maps addresses to objects; \<open>fresh\<close> is the next address an
  object literal gets. The run holds the reference \<open>newStateRef\<close> where the run above
  holds the store itself, and the previous store is passed as a reference.
\<close>

type_synonym addr = nat

datatype obj =
    State addr "int option"
  | Dict "string \<rightharpoonup> addr"
  | Cache addr
  | Entry string "int option"

record Heap =
  cells :: "addr \<rightharpoonup> obj"
  fresh :: addr

text \<open>An object literal: a new object at the next address.\<close>

definition alloc :: "obj \<Rightarrow> Heap \<Rightarrow> addr \<times> Heap" where
  "alloc ob h = (fresh h, \<lparr>cells = (cells h)(fresh h \<mapsto> ob), fresh = Suc (fresh h)\<rparr>)"

text \<open>
  \<open>o[k]\<close> for a property that holds a reference: \<open>None\<close> is \<open>undefined\<close> (the object has
  no such property).
\<close>

fun get_ref :: "obj \<Rightarrow> string \<Rightarrow> addr option" where
  "get_ref (State rs ls) k = (if k = ''repos'' then Some rs else None)"
| "get_ref (Dict d) k = d k"
| "get_ref (Cache fs) k = (if k = ''files'' then Some fs else None)"
| "get_ref (Entry s t) k = None"

text \<open>
  \<open>a[k]\<close> where \<open>a\<close> is a reference or \<open>undefined\<close>: reading a property of \<open>undefined\<close>
  throws.
\<close>

definition get_prop :: "Heap \<Rightarrow> addr option \<Rightarrow> string \<Rightarrow> error + addr option" where
  "get_prop h a k =
     (case a of
        None \<Rightarrow> Inl (TypeError ''Cannot read properties of undefined'')
      | Some x \<Rightarrow>
          (case cells h x of
             None \<Rightarrow> Inl (TypeError ''Cannot read properties of undefined'')
           | Some ob \<Rightarrow> Inr (get_ref ob k)))"

text \<open>
  \<open>a[k] = v\<close> for a reference \<open>v\<close>: only a dictionary takes a new key; the target
  \<open>undefined\<close> throws.
\<close>

definition set_key :: "Heap \<Rightarrow> addr option \<Rightarrow> string \<Rightarrow> addr \<Rightarrow> error + Heap" where
  "set_key h a k v =
     (case a of
        None \<Rightarrow> Inl (TypeError ''Cannot set properties of undefined'')
      | Some x \<Rightarrow>
          (case cells h x of
             Some (Dict d) \<Rightarrow> Inr (h\<lparr>cells := (cells h)(x \<mapsto> Dict (d(k \<mapsto> v)))\<rparr>)
           | _ \<Rightarrow> Inl (TypeError ''Cannot set properties of undefined'')))"

text \<open>\<open>prevState.repos[repo.full_name]?.files[file.path]\<close>, a reference or \<open>undefined\<close>.\<close>

definition prevEntry_h :: "Heap \<Rightarrow> addr \<Rightarrow> string \<Rightarrow> string \<Rightarrow> error + addr option" where
  "prevEntry_h h prevState n p =
     (case get_prop h (Some prevState) ''repos'' of
        Inl e \<Rightarrow> Inl e
      | Inr rs \<Rightarrow>
          (case get_prop h rs n of
             Inl e \<Rightarrow> Inl e
           | Inr None \<Rightarrow> Inr None
           | Inr (Some rc) \<Rightarrow>
               (case get_prop h (Some rc) ''files'' of
                  Inl e \<Rightarrow> Inl e
                | Inr fs \<Rightarrow> get_prop h fs p)))"

text \<open>\<open>prevEntry?.sha === file.sha\<close> and \<open>prevEntry.lastFetched\<close>, read from the store.\<close>

definition same_sha_h :: "Heap \<Rightarrow> addr option \<Rightarrow> TreeEntry \<Rightarrow> bool" where
  "same_sha_h h prevEntry file =
     (case prevEntry of
        None \<Rightarrow> False
      | Some a \<Rightarrow> (case cells h a of
                     Some (Entry s t) \<Rightarrow> s = TreeEntry.sha file
                   | _ \<Rightarrow> False))"

definition lastFetched_h :: "Heap \<Rightarrow> addr option \<Rightarrow> int option" where
  "lastFetched_h h prevEntry =
     (case prevEntry of
        None \<Rightarrow> None
      | Some a \<Rightarrow> (case cells h a of Some (Entry s t) \<Rightarrow> t | _ \<Rightarrow> None))"

record HRun =
  heap :: Heap
  newStateRef :: addr
  results_h :: "ScrapedFile list"
  totalFetched_h :: nat
  totalSkipped_h :: nat
  totalFiles_h :: nat
  events_h :: "ScrapeProgress list"
  warnings_h :: "string list"
  requests_h :: "Request list"
  ticks_h :: nat

datatype hcompletion = HNormal HRun | HAbrupt error HRun

definition Date_now_h :: "(nat \<Rightarrow> int) \<Rightarrow> HRun \<Rightarrow> int \<times> HRun" where
  "Date_now_h clock st = (clock (ticks_h st), st\<lparr>ticks_h := Suc (ticks_h st)\<rparr>)"

definition emit_h ::
  "ScrapeConfig \<Rightarrow> Phase \<Rightarrow> string option \<Rightarrow> nat option \<Rightarrow> nat option \<Rightarrow> nat option \<Rightarrow>
   string option \<Rightarrow> HRun \<Rightarrow> HRun" where
  "emit_h config ph rp f s t msg st =
     (if onProgress config
      then st\<lparr>events_h := events_h st @
             [\<lparr>phase = ph, repo = rp,
               fetched = (case f of None \<Rightarrow> 0 | Some n \<Rightarrow> n),
               skipped = (case s of None \<Rightarrow> 0 | Some n \<Rightarrow> n),
               total = (case t of None \<Rightarrow> 0 | Some n \<Rightarrow> n),
               message = msg\<rparr>]\<rparr>
      else st)"

definition new_lastFetched_h ::
  "(nat \<Rightarrow> int) \<Rightarrow> addr option \<Rightarrow> TreeEntry \<Rightarrow> HRun \<Rightarrow> int \<times> HRun" where
  "new_lastFetched_h clock prevEntry file st =
     (if same_sha_h (heap st) prevEntry file
      then (case lastFetched_h (heap st) prevEntry of
              Some t \<Rightarrow> (t, st)
            | None \<Rightarrow> Date_now_h clock st)
      else Date_now_h clock st)"

text \<open>
  One iteration of the loop over \<open>mdFiles\<close>. Line 61 looks the previous entry up; the
  assignment of lines 62 to 65 evaluates its target \<open>newState.repos[repo.full_name].files\<close>,
  then the object literal (a new \<open>Entry\<close>), then stores the reference under the path;
  line 67 reads \<open>prevEntry?.sha\<close> again, from the store as it is then.
\<close>

definition file_step_h ::
  "(nat \<Rightarrow> int) \<Rightarrow> Remote \<Rightarrow> ScrapeConfig \<Rightarrow> addr \<Rightarrow> RepoDescriptor \<Rightarrow> string option \<Rightarrow> string option \<Rightarrow>
   HRun \<Rightarrow> TreeEntry \<Rightarrow> hcompletion" where
  "file_step_h clock env config prevState r owner repoName st file =
     (case prevEntry_h (heap st) prevState (full_name r) (TreeEntry.path file) of
        Inl e \<Rightarrow> HAbrupt e st
      | Inr prevEntry \<Rightarrow>
          (case get_prop (heap st) (Some (newStateRef st)) ''repos'' of
             Inl e \<Rightarrow> HAbrupt e st
           | Inr rs \<Rightarrow>
               (case get_prop (heap st) rs (full_name r) of
                  Inl e \<Rightarrow> HAbrupt e st
                | Inr bucket \<Rightarrow>
                    (case get_prop (heap st) bucket ''files'' of
                       Inl e \<Rightarrow> HAbrupt e st
                     | Inr target \<Rightarrow>
                         (let (stamp, st1) = new_lastFetched_h clock prevEntry file st;
                              (entry, h1) = alloc (Entry (TreeEntry.sha file) (Some stamp)) (heap st1)
                          in
                          case set_key h1 target (TreeEntry.path file) entry of
                            Inl e \<Rightarrow> HAbrupt e (st1\<lparr>heap := h1\<rparr>)
                          | Inr h2 \<Rightarrow>
                              (let st2 = st1\<lparr>heap := h2\<rparr> in
                               if same_sha_h (heap st2) prevEntry file then
                                 (let st3 = st2\<lparr>totalSkipped_h := totalSkipped_h st2 + 1\<rparr> in
                                  HNormal (emit_h config Phase_files (Some (full_name r))
                                             (Some (totalFetched_h st3)) (Some (totalSkipped_h st3))
                                             (Some (totalFiles_h st3)) None st3))
                               else
                                 (let st3 = emit_h config Phase_files (Some (full_name r))
                                              (Some (totalFetched_h st2)) (Some (totalSkipped_h st2))
                                              (Some (totalFiles_h st2))
                                              (Some (''Fetching '' @ full_name r @ ''/'' @
                                                     TreeEntry.path file)) st2;
                                      st4 = st3\<lparr>requests_h := requests_h st3 @
                                              [GetFileContent owner repoName (TreeEntry.path file)]\<rparr>
                                  in
                                  case getFileContent env owner repoName (TreeEntry.path file) of
                                    Inr c \<Rightarrow>
                                      HNormal (st4\<lparr>results_h := results_h st4 @
                                                  [\<lparr>ScrapedFile.repo = full_name r,
                                                    ScrapedFile.path = TreeEntry.path file,
                                                    content = c,
                                                    ScrapedFile.sha = TreeEntry.sha file\<rparr>],
                                                totalFetched_h := totalFetched_h st4 + 1\<rparr>)
                                  | Inl err \<Rightarrow>
                                      HNormal (st4\<lparr>warnings_h := warnings_h st4 @
                                                  [''Failed to fetch '' @ full_name r @ ''/'' @
                                                   TreeEntry.path file @ '': '' @
                                                   error_message err]\<rparr>))))))))"

fun file_loop_h ::
  "(nat \<Rightarrow> int) \<Rightarrow> Remote \<Rightarrow> ScrapeConfig \<Rightarrow> addr \<Rightarrow> RepoDescriptor \<Rightarrow> string option \<Rightarrow> string option \<Rightarrow>
   HRun \<Rightarrow> TreeEntry list \<Rightarrow> hcompletion" where
  "file_loop_h clock env config prevState r owner repoName st [] = HNormal st"
| "file_loop_h clock env config prevState r owner repoName st (file # rest) =
     (case file_step_h clock env config prevState r owner repoName st file of
        HAbrupt e st' \<Rightarrow> HAbrupt e st'
      | HNormal st' \<Rightarrow> file_loop_h clock env config prevState r owner repoName st' rest)"

text \<open>
  One iteration of the loop over \<open>repos\<close>. Line 57 evaluates its target \<open>newState.repos\<close>,
  then the literal \<open>{ files: {} }\<close> (the inner object first), then stores the reference.
\<close>

definition repo_step_h ::
  "(nat \<Rightarrow> int) \<Rightarrow> Remote \<Rightarrow> ScrapeConfig \<Rightarrow> addr \<Rightarrow> HRun \<Rightarrow> RepoDescriptor \<Rightarrow> hcompletion" where
  "repo_step_h clock env config prevState st r =
     (let (owner, repoName) = owner_and_repoName (full_name r);
          st1 = emit_h config Phase_tree (Some (full_name r)) (Some (totalFetched_h st))
                  (Some (totalSkipped_h st)) (Some (totalFiles_h st)) None st;
          st2 = st1\<lparr>requests_h := requests_h st1 @ [GetRepoTree owner repoName (default_branch r)]\<rparr>
      in
      case getRepoTree env owner repoName (default_branch r) of
        Inl err \<Rightarrow>
          HNormal (st2\<lparr>warnings_h := warnings_h st2 @
                          [''Skipping '' @ full_name r @ '': '' @ error_message err]\<rparr>)
      | Inr mdFiles \<Rightarrow>
          (let st3 = st2\<lparr>totalFiles_h := totalFiles_h st2 + length mdFiles\<rparr> in
           case get_prop (heap st3) (Some (newStateRef st3)) ''repos'' of
             Inl e \<Rightarrow> HAbrupt e st3
           | Inr target \<Rightarrow>
               (let (fs, h1) = alloc (Dict Map.empty) (heap st3);
                    (bucket, h2) = alloc (Cache fs) h1
                in
                case set_key h2 target (full_name r) bucket of
                  Inl e \<Rightarrow> HAbrupt e (st3\<lparr>heap := h2\<rparr>)
                | Inr h3 \<Rightarrow>
                    file_loop_h clock env config prevState r owner repoName
                      (st3\<lparr>heap := h3\<rparr>) mdFiles)))"

fun repo_loop_h ::
  "(nat \<Rightarrow> int) \<Rightarrow> Remote \<Rightarrow> ScrapeConfig \<Rightarrow> addr \<Rightarrow> HRun \<Rightarrow> RepoDescriptor list \<Rightarrow> hcompletion" where
  "repo_loop_h clock env config prevState st [] = HNormal st"
| "repo_loop_h clock env config prevState st (r # rest) =
     (case repo_step_h clock env config prevState st r of
        HAbrupt e st' \<Rightarrow> HAbrupt e st'
      | HNormal st' \<Rightarrow> repo_loop_h clock env config prevState st' rest)"

text \<open>
  The default \<open>{ repos: {} }\<close> of an absent \<open>prevState\<close> argument is a new object, too.
\<close>

definition default_prevState_h :: "addr option \<Rightarrow> Heap \<Rightarrow> addr \<times> Heap" where
  "default_prevState_h arg h =
     (case arg of
        Some a \<Rightarrow> (a, h)
      | None \<Rightarrow> (let (rs, h1) = alloc (Dict Map.empty) h in alloc (State rs None) h1))"

text \<open>Line 31: \<open>{ repos: {}, lastScrape: new Date().toISOString() }\<close>, then as above.\<close>

definition start_h :: "(nat \<Rightarrow> int) \<Rightarrow> ScrapeConfig \<Rightarrow> Heap \<Rightarrow> HRun" where
  "start_h clock config h =
     (let (rs, h1) = alloc (Dict Map.empty) h;
          (ns, h2) = alloc (State rs (Some (clock 0))) h1;
          st0 = \<lparr>heap = h2, newStateRef = ns,
                 results_h = [], totalFetched_h = 0, totalSkipped_h = 0, totalFiles_h = 0,
                 events_h = [], warnings_h = [], requests_h = [], ticks_h = 1\<rparr>;
          st1 = emit_h config Phase_repos None None None None
                  (Some (''Listing repositories for '' @ org config @ [CHR 0xE2, CHR 0x80, CHR 0xA6])) st0
      in st1\<lparr>requests_h := requests_h st1 @ [ListOrgRepos (org config)]\<rparr>)"

definition scrapeOrg_h ::
  "(nat \<Rightarrow> int) \<Rightarrow> Remote \<Rightarrow> ScrapeConfig \<Rightarrow> addr option \<Rightarrow> Heap \<Rightarrow>
   (error + ScrapedFile list \<times> addr) \<times> HRun" where
  "scrapeOrg_h clock env config prevStateArg h =
     (let (prevState, h0) = default_prevState_h prevStateArg h;
          st = start_h clock config h0
      in
      case listOrgRepos env (org config) of
        Inl err \<Rightarrow> (Inl err, st)
      | Inr allRepos \<Rightarrow>
          (case repo_loop_h clock env config prevState st (retained config allRepos) of
             HAbrupt e st' \<Rightarrow> (Inl e, st')
           | HNormal st' \<Rightarrow>
               (let st'' = emit_h config Phase_done None (Some (totalFetched_h st'))
                             (Some (totalSkipped_h st')) (Some (totalFiles_h st')) None st'
                in (Inr (results_h st'', newStateRef st''), st''))))"

text \<open>
  What a reference stands for: the store read off the heap at a \<open>State\<close> object, \<open>None\<close>
  where the objects do not have the shapes the interfaces declare.
\<close>

definition read_entry :: "Heap \<Rightarrow> addr \<Rightarrow> FileEntry option" where
  "read_entry h a =
     (case cells h a of
        Some (Entry s t) \<Rightarrow> Some \<lparr>FileEntry.sha = s, lastFetched = t\<rparr>
      | _ \<Rightarrow> None)"

definition read_cache :: "Heap \<Rightarrow> addr \<Rightarrow> RepoCache option" where
  "read_cache h a =
     (case cells h a of
        Some (Cache fs) \<Rightarrow>
          (case cells h fs of
             Some (Dict d) \<Rightarrow>
               Some \<lparr>files = (\<lambda>p. case d p of None \<Rightarrow> None | Some e \<Rightarrow> read_entry h e)\<rparr>
           | _ \<Rightarrow> None)
      | _ \<Rightarrow> None)"

definition read_state :: "Heap \<Rightarrow> addr \<Rightarrow> ScrapeState option" where
  "read_state h a =
     (case cells h a of
        Some (State rs ls) \<Rightarrow>
          (case cells h rs of
             Some (Dict d) \<Rightarrow>
               Some \<lparr>repos = (\<lambda>n. case d n of None \<Rightarrow> None | Some c \<Rightarrow> read_cache h c),
                     lastScrape = ls\<rparr>
           | _ \<Rightarrow> None)
      | _ \<Rightarrow> None)"

text \<open>\<open>reaches h a b\<close>: the object at \<open>b\<close> can be reached from \<open>a\<close> through references.\<close>

inductive reaches :: "Heap \<Rightarrow> addr \<Rightarrow> addr \<Rightarrow> bool" where
  here: "reaches h a a"
| step: "cells h a = Some ob \<Longrightarrow> get_ref ob k = Some x \<Longrightarrow> reaches h x b \<Longrightarrow> reaches h a b"

definition file_records ::
  "Remote \<Rightarrow> ScrapeState \<Rightarrow> RepoDescriptor \<Rightarrow> string option \<Rightarrow> string option \<Rightarrow> TreeEntry \<Rightarrow> ScrapedFile list" where
  "file_records env prevState r owner repoName file =
     (if same_sha (prev_entry prevState (full_name r) (TreeEntry.path file)) file then []
      else (case getFileContent env owner repoName (TreeEntry.path file) of
              Inr c \<Rightarrow> [\<lparr>ScrapedFile.repo = full_name r, ScrapedFile.path = TreeEntry.path file,
                         content = c, ScrapedFile.sha = TreeEntry.sha file\<rparr>]
            | Inl err \<Rightarrow> []))"

definition file_requests ::
  "ScrapeState \<Rightarrow> RepoDescriptor \<Rightarrow> string option \<Rightarrow> string option \<Rightarrow> TreeEntry \<Rightarrow> Request list" where
  "file_requests prevState r owner repoName file =
     (if same_sha (prev_entry prevState (full_name r) (TreeEntry.path file)) file then []
      else [GetFileContent owner repoName (TreeEntry.path file)])"

definition stamp_ok ::
  "(nat \<Rightarrow> int) \<Rightarrow> FileEntry option \<Rightarrow> string \<Rightarrow> nat \<Rightarrow> nat \<Rightarrow> int option \<Rightarrow> bool" where
  "stamp_ok clock prevEntry s lo hi x =
     (case prevEntry of
        None \<Rightarrow> (\<exists>k. lo \<le> k \<and> k < hi \<and> x = Some (clock k))
      | Some e \<Rightarrow>
          if FileEntry.sha e = s
          then (case lastFetched e of
                  Some y \<Rightarrow> x = Some y
                | None \<Rightarrow> (\<exists>k. lo \<le> k \<and> k < hi \<and> x = Some (clock k)))
          else (\<exists>k. lo \<le> k \<and> k < hi \<and> x = Some (clock k)))"

fun last_with :: "('a \<Rightarrow> bool) \<Rightarrow> 'a list \<Rightarrow> 'a option" where
  "last_with P [] = None"
| "last_with P (x # xs) =
     (case last_with P xs of Some y \<Rightarrow> Some y | None \<Rightarrow> if P x then Some x else None)"

definition bucket_ok ::
  "(nat \<Rightarrow> int) \<Rightarrow> ScrapeState \<Rightarrow> string \<Rightarrow> (string \<rightharpoonup> FileEntry) \<Rightarrow> TreeEntry list \<Rightarrow> nat \<Rightarrow> nat \<Rightarrow>
   (string \<rightharpoonup> FileEntry) \<Rightarrow> bool" where
  "bucket_ok clock prevState n old fs lo hi new =
     (\<forall>p. case last_with (\<lambda>t. TreeEntry.path t = p) fs of
            None \<Rightarrow> new p = old p
          | Some t \<Rightarrow> (\<exists>e. new p = Some e \<and> FileEntry.sha e = TreeEntry.sha t \<and>
                           stamp_ok clock (prev_entry prevState n p) (TreeEntry.sha t) lo hi (lastFetched e)))"

definition tree_of :: "Remote \<Rightarrow> RepoDescriptor \<Rightarrow> error + TreeEntry list" where
  "tree_of env r =
     (case owner_and_repoName (full_name r) of
        (owner, repoName) \<Rightarrow> getRepoTree env owner repoName (default_branch r))"

definition tree_ok :: "Remote \<Rightarrow> RepoDescriptor \<Rightarrow> bool" where
  "tree_ok env r = (case tree_of env r of Inl err \<Rightarrow> False | Inr mdFiles \<Rightarrow> True)"

definition repo_records :: "Remote \<Rightarrow> ScrapeState \<Rightarrow> RepoDescriptor \<Rightarrow> ScrapedFile list" where
  "repo_records env prevState r =
     (case owner_and_repoName (full_name r) of
        (owner, repoName) \<Rightarrow>
          (case getRepoTree env owner repoName (default_branch r) of
             Inl err \<Rightarrow> []
           | Inr mdFiles \<Rightarrow> concat (map (file_records env prevState r owner repoName) mdFiles)))"

definition repo_requests :: "Remote \<Rightarrow> ScrapeState \<Rightarrow> RepoDescriptor \<Rightarrow> Request list" where
  "repo_requests env prevState r =
     (case owner_and_repoName (full_name r) of
        (owner, repoName) \<Rightarrow>
          GetRepoTree owner repoName (default_branch r) #
          (case getRepoTree env owner repoName (default_branch r) of
             Inl err \<Rightarrow> []
           | Inr mdFiles \<Rightarrow> concat (map (file_requests prevState r owner repoName) mdFiles)))"

definition counts_inv :: "Run \<Rightarrow> bool" where
  "counts_inv st =
     (sorted_wrt (\<lambda>a b. fetched a + skipped a \<le> fetched b + skipped b \<and> total a \<le> total b) (events st) \<and>
      list_all (\<lambda>e. fetched e + skipped e \<le> totalFetched st + totalSkipped st \<and>
                     total e \<le> totalFiles st) (events st))"

definition content_of :: "Remote \<Rightarrow> RepoDescriptor \<Rightarrow> TreeEntry \<Rightarrow> error + string" where
  "content_of env r file =
     (case owner_and_repoName (full_name r) of
        (owner, repoName) \<Rightarrow> getFileContent env owner repoName (TreeEntry.path file))"

definition repo_total :: "Remote \<Rightarrow> RepoDescriptor \<Rightarrow> nat" where
  "repo_total env r = (case tree_of env r of Inl err \<Rightarrow> 0 | Inr mdFiles \<Rightarrow> length mdFiles)"

definition repo_skipped :: "Remote \<Rightarrow> ScrapeState \<Rightarrow> RepoDescriptor \<Rightarrow> nat" where
  "repo_skipped env prevState r =
     (case tree_of env r of
        Inl err \<Rightarrow> 0
      | Inr mdFiles \<Rightarrow>
          length (filter (\<lambda>file. same_sha (prev_entry prevState (full_name r) (TreeEntry.path file)) file)
                    mdFiles))"

text \<open>
  The readings of the clock. Line 31 takes reading 0; after it, line 64 evaluates
  \<open>Date.now()\<close> for an entry exactly when \<open>prevEntry?.sha === file.sha\<close> is false or
  \<open>prevEntry.lastFetched\<close> is missing (\<open>reads_clock\<close>). \<open>tree_reads\<close>, \<open>repo_reads\<close> and
  \<open>clock_reads\<close> count these readings for a list of entries, for the walk of one
  repository (none when its tree listing fails) and for a list of repositories.
  \<open>stamp_at\<close> is the value of the conditional of line 64 when the clock stands at
  reading \<open>k\<close>.
\<close>

definition reads_clock :: "ScrapeState \<Rightarrow> RepoDescriptor \<Rightarrow> TreeEntry \<Rightarrow> bool" where
  "reads_clock prevState r file =
     (case prev_entry prevState (full_name r) (TreeEntry.path file) of
        None \<Rightarrow> True
      | Some e \<Rightarrow> FileEntry.sha e \<noteq> TreeEntry.sha file \<or> lastFetched e = None)"

definition tree_reads :: "ScrapeState \<Rightarrow> RepoDescriptor \<Rightarrow> TreeEntry list \<Rightarrow> nat" where
  "tree_reads prevState r mdFiles = length (filter (reads_clock prevState r) mdFiles)"

definition repo_reads :: "Remote \<Rightarrow> ScrapeState \<Rightarrow> RepoDescriptor \<Rightarrow> nat" where
  "repo_reads env prevState r =
     (case tree_of env r of Inl err \<Rightarrow> 0 | Inr mdFiles \<Rightarrow> tree_reads prevState r mdFiles)"

definition clock_reads :: "Remote \<Rightarrow> ScrapeState \<Rightarrow> RepoDescriptor list \<Rightarrow> nat" where
  "clock_reads env prevState rs = sum_list (map (repo_reads env prevState) rs)"

definition stamp_at :: "(nat \<Rightarrow> int) \<Rightarrow> ScrapeState \<Rightarrow> RepoDescriptor \<Rightarrow> TreeEntry \<Rightarrow> nat \<Rightarrow> int" where
  "stamp_at clock prevState r file k =
     (case prev_entry prevState (full_name r) (TreeEntry.path file) of
        None \<Rightarrow> clock k
      | Some e \<Rightarrow>
          if FileEntry.sha e = TreeEntry.sha file
          then (case lastFetched e of Some stamp \<Rightarrow> stamp | None \<Rightarrow> clock k)
          else clock k)"

text \<open>
  The diff rule in the words of the specification: for a previous bucket \<open>P\<close> and the
  current tree entries \<open>T\<close>, \<open>to_fetch = { t \<in> T | path(t) \<notin> P \<or> P[path(t)].fingerprint \<noteq>
  fingerprint(t) }\<close>, in the order of the tree. The previous bucket of a repository that
  the previous store does not know is empty.
\<close>

definition prev_bucket :: "ScrapeState \<Rightarrow> string \<Rightarrow> (string \<rightharpoonup> FileEntry)" where
  "prev_bucket prevState n = (case repos prevState n of None \<Rightarrow> Map.empty | Some rc \<Rightarrow> files rc)"

definition to_fetch :: "(string \<rightharpoonup> FileEntry) \<Rightarrow> TreeEntry list \<Rightarrow> TreeEntry list" where
  "to_fetch P T =
     filter (\<lambda>t. case P (TreeEntry.path t) of
                   None \<Rightarrow> True
                 | Some e \<Rightarrow> FileEntry.sha e \<noteq> TreeEntry.sha t) T"

text \<open>
  \<open>grows h0 h\<close>: the heap \<open>h\<close> extends \<open>h0\<close> by new objects only. The objects of \<open>h0\<close> (below
  its next address) are as they were, every object lies below the next address, and a
  new object refers to new objects only. \<open>closed h\<close>: no reference in \<open>h\<close> dangles.
\<close>

definition grows :: "Heap \<Rightarrow> Heap \<Rightarrow> bool" where
  "grows h0 h =
     (fresh h0 \<le> fresh h \<and>
      (\<forall>a. a < fresh h0 \<longrightarrow> cells h a = cells h0 a) \<and>
      (\<forall>a ob. cells h a = Some ob \<longrightarrow> a < fresh h) \<and>
      (\<forall>a ob k x. fresh h0 \<le> a \<longrightarrow> cells h a = Some ob \<longrightarrow> get_ref ob k = Some x \<longrightarrow>
         fresh h0 \<le> x))"

definition closed :: "Heap \<Rightarrow> bool" where
  "closed h = (\<forall>a ob k x. cells h a = Some ob \<longrightarrow> get_ref ob k = Some x \<longrightarrow> cells h x \<noteq> None)"

text \<open>The invariant of the run on the object store: its own objects are all new.\<close>

definition run_inv :: "Heap \<Rightarrow> HRun \<Rightarrow> bool" where
  "run_inv h0 st = (grows h0 (heap st) \<and> fresh h0 \<le> newStateRef st)"

text \<open>
  The object store holds a value: \<open>state_at h a s\<close> says that the object at \<open>a\<close> is a
  \<open>ScrapeState\<close> whose buckets and entries, read through the references, are those of
  \<open>s\<close>; \<open>bucket_at\<close> and \<open>entry_at\<close> say the same of a \<open>RepoCache\<close> and of an optional
  \<open>FileEntry\<close>.
\<close>

definition entry_at :: "Heap \<Rightarrow> addr option \<Rightarrow> FileEntry option \<Rightarrow> bool" where
  "entry_at h ao eo =
     (case ao of
        None \<Rightarrow> eo = None
      | Some a \<Rightarrow> (\<exists>s t. cells h a = Some (Entry s t) \<and>
                       eo = Some \<lparr>FileEntry.sha = s, lastFetched = t\<rparr>))"

definition bucket_at :: "Heap \<Rightarrow> addr \<Rightarrow> RepoCache \<Rightarrow> bool" where
  "bucket_at h c b =
     (\<exists>fs fd. cells h c = Some (Cache fs) \<and> cells h fs = Some (Dict fd) \<and>
        (\<forall>p. entry_at h (fd p) (files b p)))"

definition state_at :: "Heap \<Rightarrow> addr \<Rightarrow> ScrapeState \<Rightarrow> bool" where
  "state_at h a s =
     (\<exists>rs d. cells h a = Some (State rs (lastScrape s)) \<and> cells h rs = Some (Dict d) \<and>
        (\<forall>n. case d n of
               None \<Rightarrow> repos s n = None
             | Some c \<Rightarrow> (\<exists>b. repos s n = Some b \<and> bucket_at h c b)))"

text \<open>No two buckets of the store at \<open>a\<close> share their \<open>files\<close> dictionary, and none is the \<open>repos\<close> dictionary.\<close>

definition unshared :: "Heap \<Rightarrow> addr \<Rightarrow> bool" where
  "unshared h a =
     (\<forall>rs ls d. cells h a = Some (State rs ls) \<longrightarrow> cells h rs = Some (Dict d) \<longrightarrow>
        (\<forall>n c fs. d n = Some c \<longrightarrow> cells h c = Some (Cache fs) \<longrightarrow>
           fs \<noteq> rs \<and>
           (\<forall>n' c'. d n' = Some c' \<longrightarrow> cells h c' = Some (Cache fs) \<longrightarrow> n' = n)))"

text \<open>The run on the object store and the run on values are at the same point.\<close>

definition sim :: "HRun \<Rightarrow> Run \<Rightarrow> bool" where
  "sim sh sf =
     (state_at (heap sh) (newStateRef sh) (newState sf) \<and> unshared (heap sh) (newStateRef sh) \<and>
      (\<forall>a ob. cells (heap sh) a = Some ob \<longrightarrow> a < fresh (heap sh)) \<and>
      results_h sh = results sf \<and> totalFetched_h sh = totalFetched sf \<and>
      totalSkipped_h sh = totalSkipped sf \<and> totalFiles_h sh = totalFiles sf \<and>
      events_h sh = events sf \<and> warnings_h sh = warnings sf \<and>
      requests_h sh = requests sf \<and> ticks_h sh = ticks sf)"

section \<open>A small organisation, for concrete runs\<close>

text \<open>
  The organisation of the repository's test suite: two repositories, \<open>repo-a\<close> with two
  Markdown files and \<open>repo-b\<close> with one; variants of the remote in which one request
  fails; a clock that advances by one millisecond per reading.
\<close>

definition ex_clock :: "nat \<Rightarrow> int" where
  "ex_clock k = 1700000000000 + int k"

definition ex_clock_later :: "nat \<Rightarrow> int" where
  "ex_clock_later k = 1700000600000 + int k"

definition ex_repo_a :: RepoDescriptor where
  "ex_repo_a = \<lparr>name = ''repo-a'', full_name = ''test-org/repo-a'', default_branch = ''main''\<rparr>"

definition ex_repo_b :: RepoDescriptor where
  "ex_repo_b = \<lparr>name = ''repo-b'', full_name = ''test-org/repo-b'', default_branch = ''main''\<rparr>"

definition ex_readme_a :: TreeEntry where
  "ex_readme_a = \<lparr>TreeEntry.path = ''README.md'', TreeEntry.sha = ''sha-readme-a'', type = ''blob''\<rparr>"

definition ex_guide_a :: TreeEntry where
  "ex_guide_a = \<lparr>TreeEntry.path = ''docs/guide.md'', TreeEntry.sha = ''sha-guide-a'', type = ''blob''\<rparr>"

definition ex_readme_b :: TreeEntry where
  "ex_readme_b = \<lparr>TreeEntry.path = ''README.md'', TreeEntry.sha = ''sha-readme-b'', type = ''blob''\<rparr>"

definition ex_content :: "string option \<Rightarrow> string option \<Rightarrow> string \<Rightarrow> error + string" where
  "ex_content owner repoName p =
     Inr (''# Content of '' @ (case repoName of None \<Rightarrow> ''undefined'' | Some x \<Rightarrow> x) @ ''/'' @ p)"

definition ex_tree :: "string option \<Rightarrow> string option \<Rightarrow> string \<Rightarrow> error + TreeEntry list" where
  "ex_tree owner repoName branch =
     (if repoName = Some ''repo-a'' then Inr [ex_readme_a, ex_guide_a] else Inr [ex_readme_b])"

definition ex_remote :: Remote where
  "ex_remote =
     \<lparr>listOrgRepos = (\<lambda>organisation. Inr [ex_repo_a, ex_repo_b]),
      getRepoTree = ex_tree,
      getFileContent = ex_content\<rparr>"

definition ex_remote_tree_fails :: Remote where
  "ex_remote_tree_fails =
     \<lparr>listOrgRepos = (\<lambda>organisation. Inr [ex_repo_a, ex_repo_b]),
      getRepoTree = (\<lambda>owner repoName branch.
         if repoName = Some ''repo-b'' then Inl (Error ''Git Repository is empty.'')
         else ex_tree owner repoName branch),
      getFileContent = ex_content\<rparr>"

definition ex_remote_content_fails :: Remote where
  "ex_remote_content_fails =
     \<lparr>listOrgRepos = (\<lambda>organisation. Inr [ex_repo_a, ex_repo_b]),
      getRepoTree = ex_tree,
      getFileContent = (\<lambda>owner repoName p.
         if repoName = Some ''repo-a'' \<and> p = ''README.md'' then Inl (Error ''Server Error'')
         else ex_content owner repoName p)\<rparr>"

definition ex_remote_unreachable :: Remote where
  "ex_remote_unreachable =
     \<lparr>listOrgRepos = (\<lambda>organisation. Inl (Error ''Not Found'')),
      getRepoTree = ex_tree,
      getFileContent = ex_content\<rparr>"

definition ex_config :: ScrapeConfig where
  "ex_config = \<lparr>org = ''test-org'', token = None, repoFilter = None, onProgress = True\<rparr>"

definition ex_config_filtered :: ScrapeConfig where
  "ex_config_filtered =
     \<lparr>org = ''test-org'', token = None, repoFilter = Some (\<lambda>s. s = ''repo-a''), onProgress = True\<rparr>"

definition ex_prevState :: ScrapeState where
  "ex_prevState =
     \<lparr>repos =
        [''test-org/repo-a'' \<mapsto>
           \<lparr>files = [''README.md'' \<mapsto> \<lparr>FileEntry.sha = ''sha-readme-a'', lastFetched = Some 1699999999000\<rparr>,
                      ''docs/guide.md'' \<mapsto> \<lparr>FileEntry.sha = ''old-sha'', lastFetched = Some 1699999999000\<rparr>,
                      ''docs/removed.md'' \<mapsto> \<lparr>FileEntry.sha = ''sha-removed'', lastFetched = Some 1699999999000\<rparr>]\<rparr>,
         ''test-org/repo-b'' \<mapsto> \<lparr>files = Map.empty\<rparr>],
      lastScrape = Some 1699999999000\<rparr>"

text \<open>The previous store of the example as objects: the \<open>State\<close> at address 8.\<close>

definition ex_heap :: Heap where
  "ex_heap =
     \<lparr>cells = [0 \<mapsto> Entry ''sha-readme-a'' (Some 1699999999000),
               1 \<mapsto> Entry ''old-sha'' (Some 1699999999000),
               2 \<mapsto> Entry ''sha-removed'' (Some 1699999999000),
               3 \<mapsto> Dict [''README.md'' \<mapsto> 0, ''docs/guide.md'' \<mapsto> 1, ''docs/removed.md'' \<mapsto> 2],
               4 \<mapsto> Cache 3,
               5 \<mapsto> Dict Map.empty,
               6 \<mapsto> Cache 5,
               7 \<mapsto> Dict [''test-org/repo-a'' \<mapsto> 4, ''test-org/repo-b'' \<mapsto> 6],
               8 \<mapsto> State 7 (Some 1699999999000)],
      fresh = 9\<rparr>"

section \<open>Properties of the loops\<close>

lemmas step_defs = file_step_def new_lastFetched_def emit_def Date_now_def same_sha_def Let_def

lemma emit_fields [simp]:
  "newState (emit config ph rp f s t msg st) = newState st"
  "results (emit config ph rp f s t msg st) = results st"
  "totalFetched (emit config ph rp f s t msg st) = totalFetched st"
  "totalSkipped (emit config ph rp f s t msg st) = totalSkipped st"
  "totalFiles (emit config ph rp f s t msg st) = totalFiles st"
  "warnings (emit config ph rp f s t msg st) = warnings st"
  "requests (emit config ph rp f s t msg st) = requests st"
  "ticks (emit config ph rp f s t msg st) = ticks st"
  by (simp_all add: emit_def)

lemma emit_events:
  "events (emit config ph rp (Some f) (Some s) (Some t) msg st) =
     events st @ (if onProgress config
                  then [\<lparr>phase = ph, repo = rp, fetched = f, skipped = s, total = t, message = msg\<rparr>]
                  else [])"
  by (simp add: emit_def)

lemma stamp_ok_mono:
  "stamp_ok clock pe s lo hi x \<Longrightarrow> lo' \<le> lo \<Longrightarrow> hi \<le> hi' \<Longrightarrow> stamp_ok clock pe s lo' hi' x"
  unfolding stamp_ok_def
  by (auto split: option.splits if_splits intro: order_trans less_le_trans)

lemma file_step_Normal:
  "repos (newState st) (full_name r) = Some b \<Longrightarrow>
   \<exists>st'. file_step clock env config prevState r owner repoName st file = Normal st'"
  by (simp add: step_defs split: prod.splits sum.splits)

lemma file_step_results:
  "file_step clock env config prevState r owner repoName st file = Normal st' \<Longrightarrow>
   results st' = results st @ file_records env prevState r owner repoName file"
  by (auto simp: step_defs file_records_def split: option.splits prod.splits sum.splits if_splits)

lemma file_step_requests:
  "file_step clock env config prevState r owner repoName st file = Normal st' \<Longrightarrow>
   requests st' = requests st @ file_requests prevState r owner repoName file"
  by (auto simp: step_defs file_requests_def split: option.splits prod.splits sum.splits if_splits)

lemma file_step_totalFetched:
  "file_step clock env config prevState r owner repoName st file = Normal st' \<Longrightarrow>
   totalFetched st' = totalFetched st + length (file_records env prevState r owner repoName file)"
  by (auto simp: step_defs file_records_def split: option.splits prod.splits sum.splits if_splits)

lemma new_lastFetched_run:
  "new_lastFetched clock pe file st = (x, st1) \<Longrightarrow>
   \<exists>k. st1 = st\<lparr>ticks := k\<rparr> \<and> ticks st \<le> k \<and>
       stamp_ok clock pe (TreeEntry.sha file) (ticks st) k (Some x)"
  by (auto simp: new_lastFetched_def Date_now_def same_sha_def stamp_ok_def
           split: option.splits if_splits)

lemma file_step_store:
  assumes "file_step clock env config prevState r owner repoName st file = Normal st'"
  shows "\<exists>b e. repos (newState st) (full_name r) = Some b \<and>
         repos (newState st') =
           (repos (newState st))(full_name r \<mapsto> b\<lparr>files := (files b)(TreeEntry.path file \<mapsto> e)\<rparr>) \<and>
         lastScrape (newState st') = lastScrape (newState st) \<and>
         FileEntry.sha e = TreeEntry.sha file \<and>
         stamp_ok clock (prev_entry prevState (full_name r) (TreeEntry.path file)) (TreeEntry.sha file)
           (ticks st) (ticks st') (lastFetched e) \<and>
         ticks st \<le> ticks st'"
proof -
  obtain x st1 where ns:
    "new_lastFetched clock (prev_entry prevState (full_name r) (TreeEntry.path file)) file st = (x, st1)"
    by (cases "new_lastFetched clock (prev_entry prevState (full_name r) (TreeEntry.path file)) file st")
  from new_lastFetched_run[OF ns] obtain k where
    st1: "st1 = st\<lparr>ticks := k\<rparr>" and le: "ticks st \<le> k" and
    ok: "stamp_ok clock (prev_entry prevState (full_name r) (TreeEntry.path file)) (TreeEntry.sha file)
           (ticks st) k (Some x)"
    by blast
  from assms obtain b where b: "repos (newState st) (full_name r) = Some b"
    by (auto simp: file_step_def Let_def split: option.splits)
  from assms ns b have
    "repos (newState st') = (repos (newState st))(full_name r \<mapsto>
        b\<lparr>files := (files b)(TreeEntry.path file \<mapsto> \<lparr>FileEntry.sha = TreeEntry.sha file, lastFetched = Some x\<rparr>)\<rparr>)
     \<and> lastScrape (newState st') = lastScrape (newState st) \<and> ticks st' = k"
    unfolding st1 by (auto simp: file_step_def emit_def Let_def split: sum.splits if_splits)
  with b le ok show ?thesis
    by (intro exI[of _ b] exI[of _ "\<lparr>FileEntry.sha = TreeEntry.sha file, lastFetched = Some x\<rparr>"]) simp
qed

text \<open>file_loop\<close>

lemma file_loop_Normal:
  "repos (newState st) (full_name r) = Some b \<Longrightarrow>
   \<exists>st'. file_loop clock env config prevState r owner repoName st fs = Normal st'"
proof (induction fs arbitrary: st b)
  case Nil
  then show ?case by simp
next
  case (Cons f fs)
  from file_step_Normal[OF Cons.prems] obtain st1 where
    s: "file_step clock env config prevState r owner repoName st f = Normal st1" by blast
  from file_step_store[OF s] obtain b1 where "repos (newState st1) (full_name r) = Some b1"
    by auto
  from Cons.IH[OF this] s show ?case by simp
qed

lemma file_loop_results:
  "file_loop clock env config prevState r owner repoName st fs = Normal st' \<Longrightarrow>
   results st' = results st @ concat (map (file_records env prevState r owner repoName) fs)"
proof (induction fs arbitrary: st)
  case Nil
  then show ?case by simp
next
  case (Cons f fs)
  then show ?case
    by (auto split: completion.splits dest!: file_step_results)
qed

lemma file_loop_requests:
  "file_loop clock env config prevState r owner repoName st fs = Normal st' \<Longrightarrow>
   requests st' = requests st @ concat (map (file_requests prevState r owner repoName) fs)"
proof (induction fs arbitrary: st)
  case Nil
  then show ?case by simp
next
  case (Cons f fs)
  then show ?case
    by (auto split: completion.splits dest!: file_step_requests)
qed

lemma file_loop_totalFetched:
  "file_loop clock env config prevState r owner repoName st fs = Normal st' \<Longrightarrow>
   totalFetched st' = totalFetched st + length (concat (map (file_records env prevState r owner repoName) fs))"
proof (induction fs arbitrary: st)
  case Nil
  then show ?case by simp
next
  case (Cons f fs)
  then show ?case
    by (auto split: completion.splits dest!: file_step_totalFetched)
qed

lemma last_with_None: "last_with P xs = None \<longleftrightarrow> (\<forall>x\<in>set xs. \<not> P x)"
  by (induction xs) (auto split: option.splits)

lemma last_with_Some: "last_with P xs = Some y \<Longrightarrow> y \<in> set xs \<and> P y"
  by (induction xs) (auto split: option.splits if_splits)

lemma bucket_ok_mono:
  assumes "bucket_ok clock prevState n old fs lo hi new" and "lo' \<le> lo" and "hi \<le> hi'"
  shows "bucket_ok clock prevState n old fs lo' hi' new"
  unfolding bucket_ok_def
proof
  fix p
  from assms(1) have
    "case last_with (\<lambda>t. TreeEntry.path t = p) fs of
       None \<Rightarrow> new p = old p
     | Some t \<Rightarrow> (\<exists>e. new p = Some e \<and> FileEntry.sha e = TreeEntry.sha t \<and>
                      stamp_ok clock (prev_entry prevState n p) (TreeEntry.sha t) lo hi (lastFetched e))"
    unfolding bucket_ok_def by blast
  with assms(2,3) show
    "case last_with (\<lambda>t. TreeEntry.path t = p) fs of
       None \<Rightarrow> new p = old p
     | Some t \<Rightarrow> (\<exists>e. new p = Some e \<and> FileEntry.sha e = TreeEntry.sha t \<and>
                      stamp_ok clock (prev_entry prevState n p) (TreeEntry.sha t) lo' hi' (lastFetched e))"
    by (auto split: option.splits intro: stamp_ok_mono)
qed

lemma bucket_ok_Nil: "bucket_ok clock prevState n old [] lo hi old"
  by (simp add: bucket_ok_def)

lemma bucket_ok_Cons:
  assumes "bucket_ok clock prevState n (old(TreeEntry.path f \<mapsto> e)) fs mid hi new"
    and "FileEntry.sha e = TreeEntry.sha f"
    and "stamp_ok clock (prev_entry prevState n (TreeEntry.path f)) (TreeEntry.sha f) lo mid (lastFetched e)"
    and "lo \<le> mid" and "mid \<le> hi"
  shows "bucket_ok clock prevState n old (f # fs) lo hi new"
  unfolding bucket_ok_def
proof
  fix p
  from assms(1) have ih:
    "case last_with (\<lambda>t. TreeEntry.path t = p) fs of
       None \<Rightarrow> new p = (old(TreeEntry.path f \<mapsto> e)) p
     | Some t \<Rightarrow> (\<exists>e. new p = Some e \<and> FileEntry.sha e = TreeEntry.sha t \<and>
                      stamp_ok clock (prev_entry prevState n p) (TreeEntry.sha t) mid hi (lastFetched e))"
    unfolding bucket_ok_def by blast
  show "case last_with (\<lambda>t. TreeEntry.path t = p) (f # fs) of
          None \<Rightarrow> new p = old p
        | Some t \<Rightarrow> (\<exists>e. new p = Some e \<and> FileEntry.sha e = TreeEntry.sha t \<and>
                         stamp_ok clock (prev_entry prevState n p) (TreeEntry.sha t) lo hi (lastFetched e))"
  proof (cases "last_with (\<lambda>t. TreeEntry.path t = p) fs")
    case None
    with ih assms(2-5) show ?thesis
      by (auto intro: stamp_ok_mono)
  next
    case (Some t)
    with ih assms(4,5) show ?thesis
      by (auto intro: stamp_ok_mono)
  qed
qed

lemma file_loop_store:
  assumes "file_loop clock env config prevState r owner repoName st fs = Normal st'"
    and "repos (newState st) (full_name r) = Some b"
  shows "\<exists>b'. repos (newState st') = (repos (newState st))(full_name r \<mapsto> b') \<and>
              lastScrape (newState st') = lastScrape (newState st) \<and>
              ticks st \<le> ticks st' \<and>
              bucket_ok clock prevState (full_name r) (files b) fs (ticks st) (ticks st') (files b')"
  using assms
proof (induction fs arbitrary: st b)
  case Nil
  then have "st' = st" by simp
  with Nil.prems(2) show ?case
    by (intro exI[of _ b]) (auto simp: bucket_ok_Nil)
next
  case (Cons f fs)
  from Cons.prems(1) obtain st1 where
    s: "file_step clock env config prevState r owner repoName st f = Normal st1" and
    l: "file_loop clock env config prevState r owner repoName st1 fs = Normal st'"
    by (auto split: completion.splits)
  from file_step_store[OF s] Cons.prems(2) obtain e where
    r1: "repos (newState st1) =
           (repos (newState st))(full_name r \<mapsto> b\<lparr>files := (files b)(TreeEntry.path f \<mapsto> e)\<rparr>)" and
    l1: "lastScrape (newState st1) = lastScrape (newState st)" and
    e: "FileEntry.sha e = TreeEntry.sha f" and
    ok: "stamp_ok clock (prev_entry prevState (full_name r) (TreeEntry.path f)) (TreeEntry.sha f)
           (ticks st) (ticks st1) (lastFetched e)" and
    t1: "ticks st \<le> ticks st1"
    by auto
  from r1 have b1: "repos (newState st1) (full_name r) = Some (b\<lparr>files := (files b)(TreeEntry.path f \<mapsto> e)\<rparr>)"
    by simp
  from Cons.IH[OF l b1] obtain b' where
    r2: "repos (newState st') = (repos (newState st1))(full_name r \<mapsto> b')" and
    l2: "lastScrape (newState st') = lastScrape (newState st1)" and
    t2: "ticks st1 \<le> ticks st'" and
    ok2: "bucket_ok clock prevState (full_name r) ((files b)(TreeEntry.path f \<mapsto> e)) fs
            (ticks st1) (ticks st') (files b')"
    by (auto simp del: fun_upd_apply)
  have "bucket_ok clock prevState (full_name r) (files b) (f # fs) (ticks st) (ticks st') (files b')"
    by (rule bucket_ok_Cons[OF ok2 e ok t1 t2])
  with r1 r2 l1 l2 t1 t2 show ?case
    by (intro exI[of _ b']) simp
qed

text \<open>events of the file loop\<close>

lemma file_step_events:
  "file_step clock env config prevState r owner repoName st file = Normal st' \<Longrightarrow>
   \<exists>es. events st' = events st @ es \<and>
        list_all (\<lambda>e. phase e = Phase_files \<and> ScrapeProgress.repo e = Some (full_name r)) es"
  by (auto simp: step_defs split: option.splits prod.splits sum.splits if_splits)

lemma counts_inv_grow:
  assumes "counts_inv st" and "events st' = events st"
    and "totalFetched st + totalSkipped st \<le> totalFetched st' + totalSkipped st'"
    and "totalFiles st \<le> totalFiles st'"
  shows "counts_inv st'"
proof -
  have "fetched e + skipped e \<le> totalFetched st' + totalSkipped st' \<and> total e \<le> totalFiles st'"
    if "e \<in> set (events st')" for e
  proof -
    from that assms(1,2) have
      "fetched e + skipped e \<le> totalFetched st + totalSkipped st \<and> total e \<le> totalFiles st"
      by (simp add: counts_inv_def list_all_iff)
    with assms(3,4) show ?thesis by linarith
  qed
  with assms(1,2) show ?thesis
    by (simp add: counts_inv_def list_all_iff)
qed

lemma counts_inv_emit:
  "counts_inv st \<Longrightarrow>
   counts_inv (emit config ph rp (Some (totalFetched st)) (Some (totalSkipped st))
                 (Some (totalFiles st)) msg st)"
  by (auto simp: emit_def counts_inv_def sorted_wrt_append list_all_iff)

lemma file_step_counts:
  "file_step clock env config prevState r owner repoName st file = Normal st' \<Longrightarrow>
   counts_inv st \<Longrightarrow>
   counts_inv st' \<and> totalFiles st' = totalFiles st"
  by (force simp: step_defs counts_inv_def sorted_wrt_append list_all_iff
           split: option.splits prod.splits sum.splits if_splits intro: le_SucI)

lemma file_loop_events:
  "file_loop clock env config prevState r owner repoName st fs = Normal st' \<Longrightarrow>
   \<exists>es. events st' = events st @ es \<and>
        list_all (\<lambda>e. phase e = Phase_files \<and> ScrapeProgress.repo e = Some (full_name r)) es"
proof (induction fs arbitrary: st)
  case Nil
  then show ?case by simp
next
  case (Cons f fs)
  from Cons.prems obtain st1 where
    s: "file_step clock env config prevState r owner repoName st f = Normal st1" and
    l: "file_loop clock env config prevState r owner repoName st1 fs = Normal st'"
    by (auto split: completion.splits)
  from file_step_events[OF s] obtain es1 where
    e1: "events st1 = events st @ es1"
        "list_all (\<lambda>e. phase e = Phase_files \<and> ScrapeProgress.repo e = Some (full_name r)) es1"
    by blast
  from Cons.IH[OF l] obtain es2 where
    e2: "events st' = events st1 @ es2"
        "list_all (\<lambda>e. phase e = Phase_files \<and> ScrapeProgress.repo e = Some (full_name r)) es2"
    by blast
  from e1 e2 show ?case
    by (intro exI[of _ "es1 @ es2"]) simp
qed

lemma file_loop_counts:
  "file_loop clock env config prevState r owner repoName st fs = Normal st' \<Longrightarrow>
   counts_inv st \<Longrightarrow>
   counts_inv st' \<and> totalFiles st' = totalFiles st"
proof (induction fs arbitrary: st)
  case Nil
  then show ?case by simp
next
  case (Cons f fs)
  from Cons.prems(1) obtain st1 where
    s: "file_step clock env config prevState r owner repoName st f = Normal st1" and
    l: "file_loop clock env config prevState r owner repoName st1 fs = Normal st'"
    by (auto split: completion.splits)
  from file_step_counts[OF s Cons.prems(2)] Cons.IH[OF l] show ?case by simp
qed

text \<open>repo_step\<close>

lemma repo_step_Normal:
  "\<exists>st'. repo_step clock env config prevState st r = Normal st'"
  by (auto simp: repo_step_def Let_def split: prod.splits sum.splits intro!: file_loop_Normal)

lemma repo_step_results:
  "repo_step clock env config prevState st r = Normal st' \<Longrightarrow>
   results st' = results st @ repo_records env prevState r"
  by (auto simp: repo_step_def repo_records_def emit_def Let_def
           split: prod.splits sum.splits dest!: file_loop_results)

lemma repo_step_requests:
  "repo_step clock env config prevState st r = Normal st' \<Longrightarrow>
   requests st' = requests st @ repo_requests env prevState r"
  by (auto simp: repo_step_def repo_requests_def emit_def Let_def
           split: prod.splits sum.splits dest!: file_loop_requests)

lemma repo_step_totalFetched:
  "repo_step clock env config prevState st r = Normal st' \<Longrightarrow>
   totalFetched st' = totalFetched st + length (repo_records env prevState r)"
  by (auto simp: repo_step_def repo_records_def emit_def Let_def
           split: prod.splits sum.splits dest!: file_loop_totalFetched)

lemma repo_step_store:
  assumes "repo_step clock env config prevState st r = Normal st'"
  shows "lastScrape (newState st') = lastScrape (newState st) \<and> ticks st \<le> ticks st' \<and>
         (case tree_of env r of
            Inl err \<Rightarrow> repos (newState st') = repos (newState st)
          | Inr mdFiles \<Rightarrow>
              (\<exists>b'. repos (newState st') = (repos (newState st))(full_name r \<mapsto> b') \<and>
                    bucket_ok clock prevState (full_name r) Map.empty mdFiles
                      (ticks st) (ticks st') (files b')))"
proof -
  obtain owner repoName where on: "owner_and_repoName (full_name r) = (owner, repoName)"
    by (cases "owner_and_repoName (full_name r)")
  define st1 where "st1 = emit config Phase_tree (Some (full_name r)) (Some (totalFetched st))
         (Some (totalSkipped st)) (Some (totalFiles st)) None st"
  show ?thesis
  proof (cases "getRepoTree env owner repoName (default_branch r)")
    case (Inl err)
    with assms on show ?thesis
      by (auto simp: repo_step_def tree_of_def Let_def)
  next
    case (Inr mdFiles)
    define st4 where "st4 = st1\<lparr>requests := requests st1 @ [GetRepoTree owner repoName (default_branch r)],
       totalFiles := totalFiles st1 + length mdFiles,
       newState := (newState st1)\<lparr>repos := (repos (newState st1))(full_name r \<mapsto> \<lparr>files = Map.empty\<rparr>)\<rparr>\<rparr>"
    have l: "file_loop clock env config prevState r owner repoName st4 mdFiles = Normal st'"
      using assms on Inr by (simp add: repo_step_def Let_def st4_def st1_def)
    have b: "repos (newState st4) (full_name r) = Some \<lparr>files = Map.empty\<rparr>"
      by (simp add: st4_def)
    have eqs: "repos (newState st4) = (repos (newState st))(full_name r \<mapsto> \<lparr>files = Map.empty\<rparr>)"
      "lastScrape (newState st4) = lastScrape (newState st)" "ticks st4 = ticks st"
      by (simp_all add: st4_def st1_def)
    from file_loop_store[OF l b] obtain b' where
      "repos (newState st') = (repos (newState st4))(full_name r \<mapsto> b')"
      "lastScrape (newState st') = lastScrape (newState st4)"
      "ticks st4 \<le> ticks st'"
      "bucket_ok clock prevState (full_name r) (files \<lparr>files = Map.empty\<rparr>) mdFiles
         (ticks st4) (ticks st') (files b')"
      by (auto simp del: fun_upd_apply)
    with eqs on Inr show ?thesis
      by (auto simp: tree_of_def simp del: fun_upd_apply)
  qed
qed

lemma repo_step_events:
  assumes "repo_step clock env config prevState st r = Normal st'"
  shows "\<exists>es. events st' = events st @ es \<and>
        list_all (\<lambda>e. (phase e = Phase_tree \<or> phase e = Phase_files) \<and>
                       ScrapeProgress.repo e = Some (full_name r)) es"
proof -
  obtain owner repoName where on: "owner_and_repoName (full_name r) = (owner, repoName)"
    by (cases "owner_and_repoName (full_name r)")
  define st1 where "st1 = emit config Phase_tree (Some (full_name r)) (Some (totalFetched st))
         (Some (totalSkipped st)) (Some (totalFiles st)) None st"
  define es1 where "es1 = (if onProgress config
     then [\<lparr>phase = Phase_tree, repo = Some (full_name r), fetched = totalFetched st,
            skipped = totalSkipped st, total = totalFiles st, message = None\<rparr>] else [])"
  have e1: "events st1 = events st @ es1" by (simp add: st1_def es1_def emit_events)
  have a1: "list_all (\<lambda>e. (phase e = Phase_tree \<or> phase e = Phase_files) \<and>
                       ScrapeProgress.repo e = Some (full_name r)) es1"
    by (simp add: es1_def)
  show ?thesis
  proof (cases "getRepoTree env owner repoName (default_branch r)")
    case (Inl err)
    with assms on have "events st' = events st1"
      by (auto simp: repo_step_def Let_def st1_def)
    with e1 a1 show ?thesis by auto
  next
    case (Inr mdFiles)
    define st4 where "st4 = st1\<lparr>requests := requests st1 @ [GetRepoTree owner repoName (default_branch r)],
       totalFiles := totalFiles st1 + length mdFiles,
       newState := (newState st1)\<lparr>repos := (repos (newState st1))(full_name r \<mapsto> \<lparr>files = Map.empty\<rparr>)\<rparr>\<rparr>"
    have l: "file_loop clock env config prevState r owner repoName st4 mdFiles = Normal st'"
      using assms on Inr by (simp add: repo_step_def Let_def st4_def st1_def)
    from file_loop_events[OF l] obtain es2 where
      e2: "events st' = events st4 @ es2"
        "list_all (\<lambda>e. phase e = Phase_files \<and> ScrapeProgress.repo e = Some (full_name r)) es2"
      by blast
    have "events st4 = events st1" by (simp add: st4_def)
    with e1 e2 a1 show ?thesis
      by (intro exI[of _ "es1 @ es2"]) (auto simp: list_all_iff)
  qed
qed

lemma repo_step_counts:
  assumes "repo_step clock env config prevState st r = Normal st'" and "counts_inv st"
  shows "counts_inv st'"
proof -
  obtain owner repoName where on: "owner_and_repoName (full_name r) = (owner, repoName)"
    by (cases "owner_and_repoName (full_name r)")
  define st1 where "st1 = emit config Phase_tree (Some (full_name r)) (Some (totalFetched st))
         (Some (totalSkipped st)) (Some (totalFiles st)) None st"
  have i1: "counts_inv st1" unfolding st1_def by (rule counts_inv_emit[OF assms(2)])
  have c1: "totalFetched st1 = totalFetched st" "totalSkipped st1 = totalSkipped st"
    "totalFiles st1 = totalFiles st"
    by (simp_all add: st1_def emit_def)
  show ?thesis
  proof (cases "getRepoTree env owner repoName (default_branch r)")
    case (Inl err)
    with assms(1) on have "st' = st1\<lparr>requests := requests st1 @ [GetRepoTree owner repoName (default_branch r)],
        warnings := warnings st1 @ [''Skipping '' @ full_name r @ '': '' @ error_message err]\<rparr>"
      by (simp add: repo_step_def Let_def st1_def)
    then show ?thesis by (intro counts_inv_grow[OF i1]) simp_all
  next
    case (Inr mdFiles)
    define st4 where "st4 = st1\<lparr>requests := requests st1 @ [GetRepoTree owner repoName (default_branch r)],
       totalFiles := totalFiles st1 + length mdFiles,
       newState := (newState st1)\<lparr>repos := (repos (newState st1))(full_name r \<mapsto> \<lparr>files = Map.empty\<rparr>)\<rparr>\<rparr>"
    have l: "file_loop clock env config prevState r owner repoName st4 mdFiles = Normal st'"
      using assms(1) on Inr by (simp add: repo_step_def Let_def st4_def st1_def)
    have "counts_inv st4" by (rule counts_inv_grow[OF i1]) (simp_all add: st4_def)
    from file_loop_counts[OF l this] show ?thesis by simp
  qed
qed


text \<open>repo_loop\<close>

lemma repo_loop_Normal:
  "\<exists>st'. repo_loop clock env config prevState st rs = Normal st'"
proof (induction rs arbitrary: st)
  case Nil
  then show ?case by simp
next
  case (Cons r rs)
  obtain st1 where "repo_step clock env config prevState st r = Normal st1"
    using repo_step_Normal by blast
  with Cons.IH[of st1] show ?case by simp
qed

lemma repo_loop_results:
  "repo_loop clock env config prevState st rs = Normal st' \<Longrightarrow>
   results st' = results st @ concat (map (repo_records env prevState) rs)"
proof (induction rs arbitrary: st)
  case Nil
  then show ?case by simp
next
  case (Cons r rs)
  then show ?case
    by (auto split: completion.splits dest!: repo_step_results)
qed

lemma repo_loop_requests:
  "repo_loop clock env config prevState st rs = Normal st' \<Longrightarrow>
   requests st' = requests st @ concat (map (repo_requests env prevState) rs)"
proof (induction rs arbitrary: st)
  case Nil
  then show ?case by simp
next
  case (Cons r rs)
  then show ?case
    by (auto split: completion.splits dest!: repo_step_requests)
qed

lemma repo_loop_totalFetched:
  "repo_loop clock env config prevState st rs = Normal st' \<Longrightarrow>
   totalFetched st' = totalFetched st + length (concat (map (repo_records env prevState) rs))"
proof (induction rs arbitrary: st)
  case Nil
  then show ?case by simp
next
  case (Cons r rs)
  then show ?case
    by (auto split: completion.splits dest!: repo_step_totalFetched)
qed

lemma repo_loop_counts:
  "repo_loop clock env config prevState st rs = Normal st' \<Longrightarrow> counts_inv st \<Longrightarrow> counts_inv st'"
proof (induction rs arbitrary: st)
  case Nil
  then show ?case by simp
next
  case (Cons r rs)
  from Cons.prems(1) obtain st1 where
    s: "repo_step clock env config prevState st r = Normal st1" and
    l: "repo_loop clock env config prevState st1 rs = Normal st'"
    by (auto split: completion.splits)
  from Cons.IH[OF l repo_step_counts[OF s Cons.prems(2)]] show ?case .
qed

lemma repo_loop_events:
  "repo_loop clock env config prevState st rs = Normal st' \<Longrightarrow>
   \<exists>es. events st' = events st @ es \<and>
        list_all (\<lambda>e. (phase e = Phase_tree \<or> phase e = Phase_files) \<and>
                       ScrapeProgress.repo e \<in> (\<lambda>r. Some (full_name r)) ` set rs) es"
proof (induction rs arbitrary: st)
  case Nil
  then show ?case by simp
next
  case (Cons r rs)
  from Cons.prems obtain st1 where
    s: "repo_step clock env config prevState st r = Normal st1" and
    l: "repo_loop clock env config prevState st1 rs = Normal st'"
    by (auto split: completion.splits)
  from repo_step_events[OF s] obtain es1 where
    e1: "events st1 = events st @ es1"
        "list_all (\<lambda>e. (phase e = Phase_tree \<or> phase e = Phase_files) \<and>
                       ScrapeProgress.repo e = Some (full_name r)) es1"
    by blast
  from Cons.IH[OF l] obtain es2 where
    e2: "events st' = events st1 @ es2"
        "list_all (\<lambda>e. (phase e = Phase_tree \<or> phase e = Phase_files) \<and>
                       ScrapeProgress.repo e \<in> (\<lambda>r. Some (full_name r)) ` set rs) es2"
    by blast
  from e1 e2 show ?case
    by (intro exI[of _ "es1 @ es2"]) (auto simp: list_all_iff)
qed

lemma repo_loop_store:
  assumes "repo_loop clock env config prevState st rs = Normal st'"
  shows "lastScrape (newState st') = lastScrape (newState st) \<and> ticks st \<le> ticks st' \<and>
         (\<forall>n. case last_with (\<lambda>r. full_name r = n \<and> tree_ok env r) rs of
                None \<Rightarrow> repos (newState st') n = repos (newState st) n
              | Some r \<Rightarrow>
                  (\<exists>mdFiles b. tree_of env r = Inr mdFiles \<and> repos (newState st') n = Some b \<and>
                     bucket_ok clock prevState n Map.empty mdFiles (ticks st) (ticks st') (files b)))"
  using assms
proof (induction rs arbitrary: st)
  case Nil
  then show ?case by simp
next
  case (Cons r rs)
  from Cons.prems obtain st1 where
    s: "repo_step clock env config prevState st r = Normal st1" and
    l: "repo_loop clock env config prevState st1 rs = Normal st'"
    by (auto split: completion.splits)
  from repo_step_store[OF s] have
    s1: "lastScrape (newState st1) = lastScrape (newState st)" and t1: "ticks st \<le> ticks st1" and
    c1: "case tree_of env r of
            Inl err \<Rightarrow> repos (newState st1) = repos (newState st)
          | Inr mdFiles \<Rightarrow>
              (\<exists>b'. repos (newState st1) = (repos (newState st))(full_name r \<mapsto> b') \<and>
                    bucket_ok clock prevState (full_name r) Map.empty mdFiles
                      (ticks st) (ticks st1) (files b'))"
    by blast+
  from Cons.IH[OF l] have
    s2: "lastScrape (newState st') = lastScrape (newState st1)" and t2: "ticks st1 \<le> ticks st'" and
    c2: "\<And>n. case last_with (\<lambda>r. full_name r = n \<and> tree_ok env r) rs of
                None \<Rightarrow> repos (newState st') n = repos (newState st1) n
              | Some r \<Rightarrow>
                  (\<exists>mdFiles b. tree_of env r = Inr mdFiles \<and> repos (newState st') n = Some b \<and>
                     bucket_ok clock prevState n Map.empty mdFiles (ticks st1) (ticks st') (files b))"
    by blast+
  have "case last_with (\<lambda>r. full_name r = n \<and> tree_ok env r) (r # rs) of
                None \<Rightarrow> repos (newState st') n = repos (newState st) n
              | Some r \<Rightarrow>
                  (\<exists>mdFiles b. tree_of env r = Inr mdFiles \<and> repos (newState st') n = Some b \<and>
                     bucket_ok clock prevState n Map.empty mdFiles (ticks st) (ticks st') (files b))" for n
  proof (cases "last_with (\<lambda>r. full_name r = n \<and> tree_ok env r) rs")
    case (Some y)
    with c2[of n] obtain mdFiles b where
      "tree_of env y = Inr mdFiles" "repos (newState st') n = Some b"
      "bucket_ok clock prevState n Map.empty mdFiles (ticks st1) (ticks st') (files b)"
      by auto
    with Some t1 show ?thesis
      by (auto intro: bucket_ok_mono)
  next
    case None
    with c2[of n] have keep: "repos (newState st') n = repos (newState st1) n" by simp
    show ?thesis
    proof (cases "full_name r = n \<and> tree_ok env r")
      case True
      then obtain mdFiles where T: "tree_of env r = Inr mdFiles"
        by (auto simp: tree_ok_def split: sum.splits)
      with c1 obtain b' where
        "repos (newState st1) = (repos (newState st))(full_name r \<mapsto> b')"
        "bucket_ok clock prevState (full_name r) Map.empty mdFiles (ticks st) (ticks st1) (files b')"
        by auto
      with True T keep None t2 show ?thesis
        by (auto intro: bucket_ok_mono)
    next
      case False
      have "repos (newState st1) n = repos (newState st) n"
      proof (cases "tree_of env r")
        case (Inl err)
        with c1 show ?thesis by simp
      next
        case (Inr mdFiles)
        with False have "full_name r \<noteq> n" by (simp add: tree_ok_def)
        with c1 Inr show ?thesis by auto
      qed
      with False None keep show ?thesis by auto
    qed
  qed
  with s1 s2 t1 t2 show ?case by simp
qed

text \<open>scrapeOrg\<close>

lemma start_fields:
  "newState (start clock config) = \<lparr>repos = Map.empty, lastScrape = Some (clock 0)\<rparr>"
  "results (start clock config) = []"
  "totalFetched (start clock config) = 0"
  "totalSkipped (start clock config) = 0"
  "totalFiles (start clock config) = 0"
  "warnings (start clock config) = []"
  "requests (start clock config) = [ListOrgRepos (org config)]"
  "ticks (start clock config) = 1"
  by (simp_all add: start_def Let_def)

lemma start_events:
  "events (start clock config) =
     (if onProgress config
      then [\<lparr>phase = Phase_repos, repo = None, fetched = 0, skipped = 0, total = 0,
             message = Some (''Listing repositories for '' @ org config @ [CHR 0xE2, CHR 0x80, CHR 0xA6])\<rparr>]
      else [])"
  by (simp add: start_def Let_def emit_def)

lemma start_counts: "counts_inv (start clock config)"
  by (simp add: counts_inv_def start_events start_fields)

lemma scrapeOrg_rejected:
  "listOrgRepos env (org config) = Inl err \<Longrightarrow>
   scrapeOrg clock env config arg = (Inl err, start clock config)"
  by (simp add: scrapeOrg_def Let_def)

lemma scrapeOrg_resolved:
  assumes "listOrgRepos env (org config) = Inr allRepos"
  shows "\<exists>st'. repo_loop clock env config (default_prevState arg) (start clock config)
                (retained config allRepos) = Normal st' \<and>
              scrapeOrg clock env config arg =
                (Inr (results st', newState st'),
                 emit config Phase_done None (Some (totalFetched st')) (Some (totalSkipped st'))
                   (Some (totalFiles st')) None st')"
proof -
  obtain st' where "repo_loop clock env config (default_prevState arg) (start clock config)
                (retained config allRepos) = Normal st'"
    using repo_loop_Normal by blast
  with assms show ?thesis
    by (simp add: scrapeOrg_def Let_def)
qed

lemma resolved_files:
  assumes "listOrgRepos env (org config) = Inr allRepos"
  shows "fst (scrapeOrg clock env config arg) =
           Inr (concat (map (repo_records env (default_prevState arg)) (retained config allRepos)),
                newState (snd (scrapeOrg clock env config arg)))"
proof -
  from scrapeOrg_resolved[OF assms, where clock=clock and arg=arg] obtain st' where
    l: "repo_loop clock env config (default_prevState arg) (start clock config)
          (retained config allRepos) = Normal st'" and
    s: "scrapeOrg clock env config arg =
          (Inr (results st', newState st'),
           emit config Phase_done None (Some (totalFetched st')) (Some (totalSkipped st'))
             (Some (totalFiles st')) None st')"
    by blast
  from repo_loop_results[OF l] s show ?thesis
    by (simp add: start_fields)
qed

lemma resolved_run:
  assumes "listOrgRepos env (org config) = Inr allRepos"
  shows "results (snd (scrapeOrg clock env config arg)) =
           concat (map (repo_records env (default_prevState arg)) (retained config allRepos))"
    and "requests (snd (scrapeOrg clock env config arg)) =
           ListOrgRepos (org config) #
           concat (map (repo_requests env (default_prevState arg)) (retained config allRepos))"
    and "totalFetched (snd (scrapeOrg clock env config arg)) =
           length (concat (map (repo_records env (default_prevState arg)) (retained config allRepos)))"
proof -
  from scrapeOrg_resolved[OF assms, where clock=clock and arg=arg] obtain st' where
    l: "repo_loop clock env config (default_prevState arg) (start clock config)
          (retained config allRepos) = Normal st'" and
    s: "scrapeOrg clock env config arg =
          (Inr (results st', newState st'),
           emit config Phase_done None (Some (totalFetched st')) (Some (totalSkipped st'))
             (Some (totalFiles st')) None st')"
    by blast
  from repo_loop_results[OF l] s
  show "results (snd (scrapeOrg clock env config arg)) =
           concat (map (repo_records env (default_prevState arg)) (retained config allRepos))"
    by (simp add: start_fields)
  from repo_loop_requests[OF l] s
  show "requests (snd (scrapeOrg clock env config arg)) =
           ListOrgRepos (org config) #
           concat (map (repo_requests env (default_prevState arg)) (retained config allRepos))"
    by (simp add: start_fields)
  from repo_loop_totalFetched[OF l] s
  show "totalFetched (snd (scrapeOrg clock env config arg)) =
           length (concat (map (repo_records env (default_prevState arg)) (retained config allRepos)))"
    by (simp add: start_fields)
qed

lemma resolved_store:
  assumes "listOrgRepos env (org config) = Inr allRepos"
  shows "lastScrape (newState (snd (scrapeOrg clock env config arg))) = Some (clock 0)"
    and "1 \<le> ticks (snd (scrapeOrg clock env config arg))"
    and "case last_with (\<lambda>r. full_name r = n \<and> tree_ok env r) (retained config allRepos) of
           None \<Rightarrow> repos (newState (snd (scrapeOrg clock env config arg))) n = None
         | Some r \<Rightarrow>
             (\<exists>mdFiles b. tree_of env r = Inr mdFiles \<and>
                repos (newState (snd (scrapeOrg clock env config arg))) n = Some b \<and>
                bucket_ok clock (default_prevState arg) n Map.empty mdFiles 1
                  (ticks (snd (scrapeOrg clock env config arg))) (files b))"
proof -
  from scrapeOrg_resolved[OF assms, where clock=clock and arg=arg] obtain st' where
    l: "repo_loop clock env config (default_prevState arg) (start clock config)
          (retained config allRepos) = Normal st'" and
    s: "scrapeOrg clock env config arg =
          (Inr (results st', newState st'),
           emit config Phase_done None (Some (totalFetched st')) (Some (totalSkipped st'))
             (Some (totalFiles st')) None st')"
    by blast
  note st = repo_loop_store[OF l, unfolded start_fields]
  from st s show "lastScrape (newState (snd (scrapeOrg clock env config arg))) = Some (clock 0)"
    by simp
  from st s show "1 \<le> ticks (snd (scrapeOrg clock env config arg))"
    by simp
  from st have "case last_with (\<lambda>r. full_name r = n \<and> tree_ok env r) (retained config allRepos) of
           None \<Rightarrow> repos (newState st') n = repos \<lparr>repos = Map.empty, lastScrape = Some (clock 0)\<rparr> n
         | Some r \<Rightarrow>
             (\<exists>mdFiles b. tree_of env r = Inr mdFiles \<and>
                repos (newState st') n = Some b \<and>
                bucket_ok clock (default_prevState arg) n Map.empty mdFiles 1 (ticks st') (files b))"
    by blast
  with s show "case last_with (\<lambda>r. full_name r = n \<and> tree_ok env r) (retained config allRepos) of
           None \<Rightarrow> repos (newState (snd (scrapeOrg clock env config arg))) n = None
         | Some r \<Rightarrow>
             (\<exists>mdFiles b. tree_of env r = Inr mdFiles \<and>
                repos (newState (snd (scrapeOrg clock env config arg))) n = Some b \<and>
                bucket_ok clock (default_prevState arg) n Map.empty mdFiles 1
                  (ticks (snd (scrapeOrg clock env config arg))) (files b))"
    by (simp split: option.splits)
qed

lemma resolved_events:
  assumes "listOrgRepos env (org config) = Inr allRepos"
  shows "\<exists>es. events (snd (scrapeOrg clock env config arg)) =
           events (start clock config) @ es @
           (if onProgress config
            then [\<lparr>phase = Phase_done, repo = None,
                   fetched = totalFetched (snd (scrapeOrg clock env config arg)),
                   skipped = totalSkipped (snd (scrapeOrg clock env config arg)),
                   total = totalFiles (snd (scrapeOrg clock env config arg)), message = None\<rparr>]
            else []) \<and>
          list_all (\<lambda>e. (phase e = Phase_tree \<or> phase e = Phase_files) \<and>
                       ScrapeProgress.repo e \<in> (\<lambda>r. Some (full_name r)) ` set (retained config allRepos)) es"
proof -
  from scrapeOrg_resolved[OF assms, where clock=clock and arg=arg] obtain st' where
    l: "repo_loop clock env config (default_prevState arg) (start clock config)
          (retained config allRepos) = Normal st'" and
    s: "scrapeOrg clock env config arg =
          (Inr (results st', newState st'),
           emit config Phase_done None (Some (totalFetched st')) (Some (totalSkipped st'))
             (Some (totalFiles st')) None st')"
    by blast
  from repo_loop_events[OF l] obtain es where
    "events st' = events (start clock config) @ es"
    "list_all (\<lambda>e. (phase e = Phase_tree \<or> phase e = Phase_files) \<and>
                       ScrapeProgress.repo e \<in> (\<lambda>r. Some (full_name r)) ` set (retained config allRepos)) es"
    by blast
  with s show ?thesis
    by (intro exI[of _ es]) (simp add: emit_events)
qed

lemma run_counts: "counts_inv (snd (scrapeOrg clock env config arg))"
proof (cases "listOrgRepos env (org config)")
  case (Inl err)
  then show ?thesis by (simp add: scrapeOrg_rejected start_counts)
next
  case (Inr allRepos)
  from scrapeOrg_resolved[OF Inr, where clock=clock and arg=arg] obtain st' where
    l: "repo_loop clock env config (default_prevState arg) (start clock config)
          (retained config allRepos) = Normal st'" and
    s: "scrapeOrg clock env config arg =
          (Inr (results st', newState st'),
           emit config Phase_done None (Some (totalFetched st')) (Some (totalSkipped st'))
             (Some (totalFiles st')) None st')"
    by blast
  from repo_loop_counts[OF l start_counts] have "counts_inv st'" .
  with s show ?thesis by (simp add: counts_inv_emit)
qed

text \<open>Unfolding a run on concrete inputs.\<close>

lemmas run_defs = scrapeOrg_def start_def retained_def default_prevState_def repo_step_def
  owner_and_repoName_def file_step_def new_lastFetched_def prev_entry_def same_sha_def
  Date_now_def emit_def Let_def

lemmas ex_defs = ex_clock_def ex_clock_later_def ex_repo_a_def ex_repo_b_def ex_readme_a_def
  ex_guide_a_def ex_readme_b_def ex_content_def ex_tree_def ex_remote_def
  ex_remote_tree_fails_def ex_remote_content_fails_def ex_remote_unreachable_def
  ex_config_def ex_config_filtered_def ex_prevState_def

text \<open>The counters\<close>

lemma file_step_totals:
  "file_step clock env config prevState r owner repoName st file = Normal st' \<Longrightarrow>
   totalFiles st' = totalFiles st \<and>
   totalSkipped st' = totalSkipped st +
     (if same_sha (prev_entry prevState (full_name r) (TreeEntry.path file)) file then 1 else 0)"
  by (auto simp: file_step_def Let_def split: option.splits prod.splits sum.splits if_splits
           dest!: new_lastFetched_run)

lemma file_loop_totals:
  "file_loop clock env config prevState r owner repoName st fs = Normal st' \<Longrightarrow>
   totalFiles st' = totalFiles st \<and>
   totalSkipped st' = totalSkipped st +
     length (filter (\<lambda>file. same_sha (prev_entry prevState (full_name r) (TreeEntry.path file)) file) fs)"
proof (induction fs arbitrary: st)
  case Nil
  then show ?case by simp
next
  case (Cons f fs)
  from Cons.prems obtain st1 where
    s: "file_step clock env config prevState r owner repoName st f = Normal st1" and
    l: "file_loop clock env config prevState r owner repoName st1 fs = Normal st'"
    by (auto split: completion.splits)
  from file_step_totals[OF s] Cons.IH[OF l] show ?case by simp
qed

lemma repo_step_totals:
  "repo_step clock env config prevState st r = Normal st' \<Longrightarrow>
   totalFiles st' = totalFiles st + repo_total env r \<and>
   totalSkipped st' = totalSkipped st + repo_skipped env prevState r"
  by (auto simp: repo_step_def repo_total_def repo_skipped_def tree_of_def Let_def
           split: prod.splits sum.splits dest!: file_loop_totals)

lemma repo_loop_totals:
  "repo_loop clock env config prevState st rs = Normal st' \<Longrightarrow>
   totalFiles st' = totalFiles st + sum_list (map (repo_total env) rs) \<and>
   totalSkipped st' = totalSkipped st + sum_list (map (repo_skipped env prevState) rs)"
proof (induction rs arbitrary: st)
  case Nil
  then show ?case by simp
next
  case (Cons r rs)
  from Cons.prems obtain st1 where
    s: "repo_step clock env config prevState st r = Normal st1" and
    l: "repo_loop clock env config prevState st1 rs = Normal st'"
    by (auto split: completion.splits)
  from repo_step_totals[OF s] Cons.IH[OF l] show ?case by simp
qed

lemma resolved_totals:
  assumes "listOrgRepos env (org config) = Inr allRepos"
  shows "totalFiles (snd (scrapeOrg clock env config arg)) =
           sum_list (map (repo_total env) (retained config allRepos))"
    and "totalSkipped (snd (scrapeOrg clock env config arg)) =
           sum_list (map (repo_skipped env (default_prevState arg)) (retained config allRepos))"
proof -
  from scrapeOrg_resolved[OF assms, where clock=clock and arg=arg] obtain st' where
    l: "repo_loop clock env config (default_prevState arg) (start clock config)
          (retained config allRepos) = Normal st'" and
    s: "scrapeOrg clock env config arg =
          (Inr (results st', newState st'),
           emit config Phase_done None (Some (totalFetched st')) (Some (totalSkipped st'))
             (Some (totalFiles st')) None st')"
    by blast
  from repo_loop_totals[OF l] s
  show "totalFiles (snd (scrapeOrg clock env config arg)) =
           sum_list (map (repo_total env) (retained config allRepos))"
    and "totalSkipped (snd (scrapeOrg clock env config arg)) =
           sum_list (map (repo_skipped env (default_prevState arg)) (retained config allRepos))"
    by (simp_all add: start_fields)
qed

text \<open>Membership in the returned file list\<close>

lemma in_file_records:
  "f \<in> set (file_records env prevState r owner repoName file) \<longleftrightarrow>
     \<not> same_sha (prev_entry prevState (full_name r) (TreeEntry.path file)) file \<and>
     (\<exists>c. getFileContent env owner repoName (TreeEntry.path file) = Inr c \<and>
          f = \<lparr>ScrapedFile.repo = full_name r, ScrapedFile.path = TreeEntry.path file,
               content = c, ScrapedFile.sha = TreeEntry.sha file\<rparr>)"
  by (auto simp: file_records_def split: sum.splits)

lemma in_repo_records:
  "f \<in> set (repo_records env prevState r) \<longleftrightarrow>
     (\<exists>mdFiles file c. tree_of env r = Inr mdFiles \<and> file \<in> set mdFiles \<and>
        \<not> same_sha (prev_entry prevState (full_name r) (TreeEntry.path file)) file \<and>
        content_of env r file = Inr c \<and>
        f = \<lparr>ScrapedFile.repo = full_name r, ScrapedFile.path = TreeEntry.path file,
             content = c, ScrapedFile.sha = TreeEntry.sha file\<rparr>)"
proof -
  obtain owner repoName where on: "owner_and_repoName (full_name r) = (owner, repoName)"
    by (cases "owner_and_repoName (full_name r)")
  show ?thesis
  proof (cases "getRepoTree env owner repoName (default_branch r)")
    case (Inl err)
    with on show ?thesis by (simp add: repo_records_def tree_of_def)
  next
    case (Inr mdFiles)
    with on show ?thesis
      by (simp add: repo_records_def tree_of_def content_of_def in_file_records) blast
  qed
qed

lemma in_repo_requests:
  "q \<in> set (repo_requests env prevState r) \<Longrightarrow>
   \<exists>owner repoName. owner_and_repoName (full_name r) = (owner, repoName) \<and>
      (q = GetRepoTree owner repoName (default_branch r) \<or>
       (\<exists>p. q = GetFileContent owner repoName p))"
  by (auto simp: repo_requests_def file_requests_def split: prod.splits sum.splits if_splits)

lemma prev_bucket_entry: "prev_bucket prevState n p = prev_entry prevState n p"
  by (simp add: prev_bucket_def prev_entry_def split: option.splits)

lemma to_fetch_same_sha:
  "to_fetch (prev_bucket prevState n) T =
     filter (\<lambda>t. \<not> same_sha (prev_entry prevState n (TreeEntry.path t)) t) T"
  by (simp add: to_fetch_def prev_bucket_entry same_sha_def split: option.splits cong: filter_cong)

lemma concat_map_if:
  "concat (map (\<lambda>x. if c x then [] else g x) xs) = concat (map g (filter (\<lambda>x. \<not> c x) xs))"
  by (induction xs) auto

lemma repo_requests_to_fetch:
  assumes "owner_and_repoName (full_name r) = (owner, repoName)" and "tree_of env r = Inr T"
  shows "repo_requests env prevState r =
           GetRepoTree owner repoName (default_branch r) #
           map (\<lambda>t. GetFileContent owner repoName (TreeEntry.path t))
             (to_fetch (prev_bucket prevState (full_name r)) T)"
proof -
  have "concat (map (file_requests prevState r owner repoName) T) =
        concat (map (\<lambda>t. [GetFileContent owner repoName (TreeEntry.path t)])
          (filter (\<lambda>t. \<not> same_sha (prev_entry prevState (full_name r) (TreeEntry.path t)) t) T))"
    unfolding file_requests_def by (rule concat_map_if)
  also have "\<dots> = map (\<lambda>t. GetFileContent owner repoName (TreeEntry.path t))
          (to_fetch (prev_bucket prevState (full_name r)) T)"
    by (simp add: to_fetch_same_sha concat_map_singleton)
  finally show ?thesis using assms
    by (simp add: repo_requests_def tree_of_def)
qed

lemma repo_records_to_fetch:
  assumes "tree_of env r = Inr T"
  shows "repo_records env prevState r =
           concat (map (\<lambda>t. case content_of env r t of
                               Inl err \<Rightarrow> []
                             | Inr c \<Rightarrow> [\<lparr>ScrapedFile.repo = full_name r,
                                          ScrapedFile.path = TreeEntry.path t, content = c,
                                          ScrapedFile.sha = TreeEntry.sha t\<rparr>])
             (to_fetch (prev_bucket prevState (full_name r)) T))"
proof -
  obtain owner repoName where on: "owner_and_repoName (full_name r) = (owner, repoName)"
    by (cases "owner_and_repoName (full_name r)")
  have "concat (map (file_records env prevState r owner repoName) T) =
        concat (map (\<lambda>t. case getFileContent env owner repoName (TreeEntry.path t) of
                               Inl err \<Rightarrow> []
                             | Inr c \<Rightarrow> [\<lparr>ScrapedFile.repo = full_name r,
                                          ScrapedFile.path = TreeEntry.path t, content = c,
                                          ScrapedFile.sha = TreeEntry.sha t\<rparr>])
          (filter (\<lambda>t. \<not> same_sha (prev_entry prevState (full_name r) (TreeEntry.path t)) t) T))"
    unfolding file_records_def
    by (rule trans[OF _ concat_map_if]) (simp cong: sum.case_cong)
  with on assms show ?thesis
    by (simp add: repo_records_def tree_of_def content_of_def to_fetch_same_sha)
qed


lemma in_to_fetch:
  "t \<in> set (to_fetch (prev_bucket prevState n) T) \<longleftrightarrow>
     t \<in> set T \<and> \<not> same_sha (prev_entry prevState n (TreeEntry.path t)) t"
  by (simp add: to_fetch_same_sha)

lemma not_same_sha_iff:
  "\<not> same_sha (prev_entry prevState n (TreeEntry.path t)) t \<longleftrightarrow>
     (prev_bucket prevState n (TreeEntry.path t) = None \<or>
      (\<exists>e. prev_bucket prevState n (TreeEntry.path t) = Some e \<and> FileEntry.sha e \<noteq> TreeEntry.sha t))"
  by (auto simp: same_sha_def prev_bucket_entry split: option.splits)

text \<open>The new store of a run that returns\<close>

lemma tree_of_cong:
  "full_name r' = full_name r \<Longrightarrow> default_branch r' = default_branch r \<Longrightarrow>
   tree_of env r' = tree_of env r"
  by (simp add: tree_of_def)

lemma last_with_exists: "x \<in> set xs \<Longrightarrow> P x \<Longrightarrow> \<exists>y. last_with P xs = Some y"
  using last_with_None[of P xs] by (cases "last_with P xs") auto

lemma bucket_ok_dom:
  assumes "bucket_ok clock prevState n Map.empty T lo hi new"
  shows "dom new = TreeEntry.path ` set T"
proof (rule set_eqI)
  fix p
  from assms have c:
    "case last_with (\<lambda>t. TreeEntry.path t = p) T of
       None \<Rightarrow> new p = Map.empty p
     | Some t \<Rightarrow> (\<exists>e. new p = Some e \<and> FileEntry.sha e = TreeEntry.sha t \<and>
                      stamp_ok clock (prev_entry prevState n p) (TreeEntry.sha t) lo hi (lastFetched e))"
    unfolding bucket_ok_def by blast
  show "p \<in> dom new \<longleftrightarrow> p \<in> TreeEntry.path ` set T"
  proof (cases "last_with (\<lambda>t. TreeEntry.path t = p) T")
    case None
    with c last_with_None[of "\<lambda>t. TreeEntry.path t = p" T] show ?thesis by auto
  next
    case (Some t)
    with c last_with_Some[OF Some] show ?thesis by auto
  qed
qed

lemma bucket_ok_entry:
  assumes "bucket_ok clock prevState n old T lo hi new"
    and "t \<in> set T"
    and "\<forall>t'\<in>set T. TreeEntry.path t' = TreeEntry.path t \<longrightarrow> TreeEntry.sha t' = TreeEntry.sha t"
  shows "\<exists>e. new (TreeEntry.path t) = Some e \<and> FileEntry.sha e = TreeEntry.sha t \<and>
             stamp_ok clock (prev_entry prevState n (TreeEntry.path t)) (TreeEntry.sha t) lo hi
               (lastFetched e)"
proof -
  from last_with_exists[of t T "\<lambda>t'. TreeEntry.path t' = TreeEntry.path t"] assms(2)
  obtain y where y: "last_with (\<lambda>t'. TreeEntry.path t' = TreeEntry.path t) T = Some y"
    by auto
  from last_with_Some[OF y] assms(3) have "TreeEntry.sha y = TreeEntry.sha t" by auto
  moreover from assms(1) have
    "case last_with (\<lambda>t'. TreeEntry.path t' = TreeEntry.path t) T of
       None \<Rightarrow> new (TreeEntry.path t) = old (TreeEntry.path t)
     | Some t' \<Rightarrow> (\<exists>e. new (TreeEntry.path t) = Some e \<and> FileEntry.sha e = TreeEntry.sha t' \<and>
                      stamp_ok clock (prev_entry prevState n (TreeEntry.path t)) (TreeEntry.sha t') lo hi
                        (lastFetched e))"
    unfolding bucket_ok_def by blast
  ultimately show ?thesis using y by auto
qed

lemma store_for_repo:
  assumes "listOrgRepos env (org config) = Inr allRepos"
    and "r \<in> set (retained config allRepos)"
    and "tree_of env r = Inr T"
    and "\<forall>r'\<in>set (retained config allRepos).
           full_name r' = full_name r \<longrightarrow> default_branch r' = default_branch r"
  shows "\<exists>b. repos (newState (snd (scrapeOrg clock env config arg))) (full_name r) = Some b \<and>
             bucket_ok clock (default_prevState arg) (full_name r) Map.empty T 1
               (ticks (snd (scrapeOrg clock env config arg))) (files b)"
proof -
  let ?P = "\<lambda>r'. full_name r' = full_name r \<and> tree_ok env r'"
  from assms(3) have "?P r" by (simp add: tree_ok_def)
  from last_with_exists[of r _ ?P, OF assms(2) this] obtain y where
    y: "last_with ?P (retained config allRepos) = Some y" by blast
  from last_with_Some[OF y] assms(4) have "tree_of env y = tree_of env r"
    by (auto intro: tree_of_cong)
  with resolved_store(3)[OF assms(1), where clock=clock and arg=arg and n="full_name r"] y assms(3)
  show ?thesis by auto
qed

lemma store_no_bucket:
  assumes "listOrgRepos env (org config) = Inr allRepos"
    and "\<forall>r'\<in>set (retained config allRepos). full_name r' = n \<longrightarrow> \<not> tree_ok env r'"
  shows "repos (newState (snd (scrapeOrg clock env config arg))) n = None"
proof -
  from assms(2) have "last_with (\<lambda>r. full_name r = n \<and> tree_ok env r) (retained config allRepos) = None"
    by (auto simp: last_with_None)
  with resolved_store(3)[OF assms(1), where clock=clock and arg=arg and n=n]
  show ?thesis by simp
qed

lemma stamp_ok_cases:
  "stamp_ok clock prevEntry s 1 hi x \<Longrightarrow>
   (case prevEntry of
      None \<Rightarrow> (\<exists>k. 0 < k \<and> k < hi \<and> x = Some (clock k))
    | Some e \<Rightarrow>
        if FileEntry.sha e = s
        then (case lastFetched e of
                Some y \<Rightarrow> x = Some y
              | None \<Rightarrow> (\<exists>k. 0 < k \<and> k < hi \<and> x = Some (clock k)))
        else (\<exists>k. 0 < k \<and> k < hi \<and> x = Some (clock k)))"
  by (auto simp: stamp_ok_def Suc_le_eq split: option.splits if_splits)


lemma record_in_files:
  assumes "listOrgRepos env (org config) = Inr allRepos"
    and "r \<in> set (retained config allRepos)" and "tree_of env r = Inr T" and "t \<in> set T"
    and "\<not> same_sha (prev_entry (default_prevState arg) (full_name r) (TreeEntry.path t)) t"
    and "content_of env r t = Inr c"
    and "fst (scrapeOrg clock env config arg) = Inr (fs, ns)"
  shows "\<lparr>ScrapedFile.repo = full_name r, ScrapedFile.path = TreeEntry.path t, content = c,
          ScrapedFile.sha = TreeEntry.sha t\<rparr> \<in> set fs"
proof -
  from resolved_files[OF assms(1), where clock=clock and arg=arg] assms(7)
  have "fs = concat (map (repo_records env (default_prevState arg)) (retained config allRepos))"
    by simp
  moreover have "\<lparr>ScrapedFile.repo = full_name r, ScrapedFile.path = TreeEntry.path t, content = c,
          ScrapedFile.sha = TreeEntry.sha t\<rparr> \<in> set (repo_records env (default_prevState arg) r)"
    unfolding in_repo_records using assms(3-6) by blast
  ultimately show ?thesis using assms(2) by auto
qed


lemma tree_request_made:
  assumes "listOrgRepos env (org config) = Inr allRepos"
    and "r \<in> set (retained config allRepos)"
    and "owner_and_repoName (full_name r) = (owner, repoName)"
  shows "GetRepoTree owner repoName (default_branch r) \<in> set (requests (snd (scrapeOrg clock env config arg)))"
proof -
  have "GetRepoTree owner repoName (default_branch r) \<in> set (repo_requests env (default_prevState arg) r)"
    using assms(3) by (simp add: repo_requests_def)
  with assms(2) show ?thesis
    unfolding resolved_run(2)[OF assms(1)] by auto
qed



lemma stamp_ok_Some: "stamp_ok clock prevEntry s lo hi x \<Longrightarrow> \<exists>y. x = Some y"
  by (auto simp: stamp_ok_def split: option.splits if_splits)

lemma stamp_ok_carried:
  "stamp_ok clock (Some e) s lo hi x \<Longrightarrow> FileEntry.sha e = s \<Longrightarrow> lastFetched e = Some y \<Longrightarrow>
   x = Some y"
  by (simp add: stamp_ok_def)

lemma bucket_ok_NoneD:
  "bucket_ok clock prevState n old T lo hi new \<Longrightarrow>
   last_with (\<lambda>t. TreeEntry.path t = p) T = None \<Longrightarrow> new p = old p"
  unfolding bucket_ok_def by (drule spec[of _ p]) simp

lemma bucket_ok_SomeD:
  "bucket_ok clock prevState n old T lo hi new \<Longrightarrow>
   last_with (\<lambda>t. TreeEntry.path t = p) T = Some t \<Longrightarrow>
   \<exists>e. new p = Some e \<and> FileEntry.sha e = TreeEntry.sha t \<and>
       stamp_ok clock (prev_entry prevState n p) (TreeEntry.sha t) lo hi (lastFetched e)"
  unfolding bucket_ok_def by (drule spec[of _ p]) simp

text \<open>
  Two buckets built from the same tree, the second against a previous store that
  holds the first, are equal.
\<close>

lemma bucket_ok_rerun:
  assumes "bucket_ok clock1 prev1 n Map.empty T lo1 hi1 (files b1)"
    and "bucket_ok clock2 prev2 n Map.empty T lo2 hi2 (files b2)"
    and "repos prev2 n = Some b1"
  shows "b2 = b1"
proof -
  have "files b2 p = files b1 p" for p
  proof (cases "last_with (\<lambda>t. TreeEntry.path t = p) T")
    case None
    from bucket_ok_NoneD[OF assms(1) None] bucket_ok_NoneD[OF assms(2) None]
    show ?thesis by simp
  next
    case (Some t)
    from bucket_ok_SomeD[OF assms(1) Some] obtain e1 where
      e1: "files b1 p = Some e1" "FileEntry.sha e1 = TreeEntry.sha t"
          "stamp_ok clock1 (prev_entry prev1 n p) (TreeEntry.sha t) lo1 hi1 (lastFetched e1)"
      by blast
    from bucket_ok_SomeD[OF assms(2) Some] obtain e2 where
      e2: "files b2 p = Some e2" "FileEntry.sha e2 = TreeEntry.sha t"
          "stamp_ok clock2 (prev_entry prev2 n p) (TreeEntry.sha t) lo2 hi2 (lastFetched e2)"
      by blast
    from stamp_ok_Some[OF e1(3)] obtain y where y: "lastFetched e1 = Some y" by blast
    have "prev_entry prev2 n p = Some e1"
      using assms(3) e1(1) by (simp add: prev_entry_def)
    with e2(3) have "lastFetched e2 = Some y"
      using stamp_ok_carried[OF _ e1(2) y] by simp
    with y e1(2) e2(2) have "e2 = e1" by simp
    with e1(1) e2(1) show ?thesis by simp
  qed
  then have "files b2 = files b1" by (rule ext)
  then show ?thesis by simp
qed

lemma repos_rerun:
  assumes "listOrgRepos env (org config) = Inr allRepos"
  shows "repos (newState (snd (scrapeOrg clock2 env config
            (Some (newState (snd (scrapeOrg clock1 env config arg))))))) =
         repos (newState (snd (scrapeOrg clock1 env config arg)))"
proof (rule ext)
  fix n
  let ?ns1 = "newState (snd (scrapeOrg clock1 env config arg))"
  let ?ns2 = "newState (snd (scrapeOrg clock2 env config (Some ?ns1)))"
  note s1 = resolved_store(3)[OF assms, where clock=clock1 and arg=arg and n=n]
  note s2 = resolved_store(3)[OF assms, where clock=clock2 and arg="Some ?ns1" and n=n]
  show "repos ?ns2 n = repos ?ns1 n"
  proof (cases "last_with (\<lambda>r. full_name r = n \<and> tree_ok env r) (retained config allRepos)")
    case None
    with s1 s2 show ?thesis by simp
  next
    case (Some r)
    from s1 Some obtain T b1 where
      1: "tree_of env r = Inr T" "repos ?ns1 n = Some b1"
         "bucket_ok clock1 (default_prevState arg) n Map.empty T 1
            (ticks (snd (scrapeOrg clock1 env config arg))) (files b1)"
      by auto
    from s2 Some 1(1) obtain b2 where
      2: "repos ?ns2 n = Some b2"
         "bucket_ok clock2 (default_prevState (Some ?ns1)) n Map.empty T 1
            (ticks (snd (scrapeOrg clock2 env config (Some ?ns1)))) (files b2)"
      by auto
    have "repos (default_prevState (Some ?ns1)) n = Some b1"
      using 1(2) by (simp add: default_prevState_def)
    from bucket_ok_rerun[OF 1(3) 2(2) this] 1(2) 2(1) show ?thesis by simp
  qed
qed

text \<open>With unique names and paths, every entry of every tree is unchanged in the rerun.\<close>

lemma rerun_same_sha:
  assumes "listOrgRepos env (org config) = Inr allRepos"
    and "r \<in> set (retained config allRepos)"
    and "tree_of env r = Inr T"
    and "\<forall>r'\<in>set (retained config allRepos).
           full_name r' = full_name r \<longrightarrow> default_branch r' = default_branch r"
    and "t \<in> set T"
    and "\<forall>t'\<in>set T. TreeEntry.path t' = TreeEntry.path t \<longrightarrow> TreeEntry.sha t' = TreeEntry.sha t"
  shows "same_sha (prev_entry (newState (snd (scrapeOrg clock env config arg)))
                     (full_name r) (TreeEntry.path t)) t"
proof -
  from store_for_repo[OF assms(1-4), where clock=clock and arg=arg] obtain b where
    b: "repos (newState (snd (scrapeOrg clock env config arg))) (full_name r) = Some b" and
    ok: "bucket_ok clock (default_prevState arg) (full_name r) Map.empty T 1
               (ticks (snd (scrapeOrg clock env config arg))) (files b)"
    by blast
  from bucket_ok_entry[OF ok assms(5,6)] obtain e where
    "files b (TreeEntry.path t) = Some e" "FileEntry.sha e = TreeEntry.sha t"
    by blast
  with b show ?thesis by (simp add: same_sha_def prev_entry_def)
qed

lemma rerun_nothing_to_fetch:
  assumes "listOrgRepos env (org config) = Inr allRepos"
    and "\<forall>r\<in>set (retained config allRepos). \<forall>r'\<in>set (retained config allRepos).
           full_name r' = full_name r \<longrightarrow> default_branch r' = default_branch r"
    and "\<forall>r\<in>set (retained config allRepos). \<forall>T. tree_of env r = Inr T \<longrightarrow>
           (\<forall>t\<in>set T. \<forall>t'\<in>set T.
              TreeEntry.path t' = TreeEntry.path t \<longrightarrow> TreeEntry.sha t' = TreeEntry.sha t)"
    and "r \<in> set (retained config allRepos)"
  shows "repo_records env (newState (snd (scrapeOrg clock env config arg))) r = []"
    and "repo_requests env (newState (snd (scrapeOrg clock env config arg))) r =
           (case owner_and_repoName (full_name r) of
              (owner, repoName) \<Rightarrow> [GetRepoTree owner repoName (default_branch r)])"
proof -
  let ?ns = "newState (snd (scrapeOrg clock env config arg))"
  obtain owner repoName where on: "owner_and_repoName (full_name r) = (owner, repoName)"
    by (cases "owner_and_repoName (full_name r)")
  have same: "same_sha (prev_entry ?ns (full_name r) (TreeEntry.path t)) t"
    if "tree_of env r = Inr T" "t \<in> set T" for T t
  proof -
    from assms(2,4) have u: "\<forall>r'\<in>set (retained config allRepos).
           full_name r' = full_name r \<longrightarrow> default_branch r' = default_branch r"
      by blast
    from assms(3,4) that have d:
      "\<forall>t'\<in>set T. TreeEntry.path t' = TreeEntry.path t \<longrightarrow> TreeEntry.sha t' = TreeEntry.sha t"
      by blast
    show ?thesis by (rule rerun_same_sha[OF assms(1) assms(4) that(1) u that(2) d])
  qed
  show "repo_records env ?ns r = []"
  proof (cases "tree_of env r")
    case (Inl err)
    with on show ?thesis by (simp add: repo_records_def tree_of_def)
  next
    case (Inr T)
    with on same[OF Inr] show ?thesis
      by (simp add: repo_records_def tree_of_def file_records_def)
  qed
  show "repo_requests env ?ns r =
           (case owner_and_repoName (full_name r) of
              (owner, repoName) \<Rightarrow> [GetRepoTree owner repoName (default_branch r)])"
  proof (cases "tree_of env r")
    case (Inl err)
    with on show ?thesis by (simp add: repo_requests_def tree_of_def)
  next
    case (Inr T)
    with on same[OF Inr] show ?thesis
      by (simp add: repo_requests_def tree_of_def file_requests_def)
  qed
qed

lemma concat_map_case_singleton:
  "concat (map (\<lambda>r. case f r of (a, b) \<Rightarrow> [g a b r]) xs) =
   map (\<lambda>r. case f r of (a, b) \<Rightarrow> g a b r) xs"
  by (induction xs) (auto split: prod.splits)

text \<open>The readings of the clock, one by one\<close>

lemma new_lastFetched_exact:
  "new_lastFetched clock (prev_entry prevState (full_name r) (TreeEntry.path file)) file st =
     (stamp_at clock prevState r file (ticks st),
      st\<lparr>ticks := ticks st + (if reads_clock prevState r file then 1 else 0)\<rparr>)"
  by (auto simp: new_lastFetched_def Date_now_def same_sha_def stamp_at_def reads_clock_def
           split: option.splits)

lemma file_step_exact:
  assumes "file_step clock env config prevState r owner repoName st file = Normal st'"
  shows "ticks st' = ticks st + (if reads_clock prevState r file then 1 else 0)"
    and "\<exists>b. repos (newState st) (full_name r) = Some b \<and>
           repos (newState st') =
             (repos (newState st))(full_name r \<mapsto> b\<lparr>files := (files b)(TreeEntry.path file \<mapsto>
                \<lparr>FileEntry.sha = TreeEntry.sha file,
                 lastFetched = Some (stamp_at clock prevState r file (ticks st))\<rparr>)\<rparr>)"
  using assms
  by (auto simp: file_step_def Let_def new_lastFetched_exact
           split: option.splits sum.splits if_splits)

lemma file_loop_ticks:
  "file_loop clock env config prevState r owner repoName st fs = Normal st' \<Longrightarrow>
   ticks st' = ticks st + tree_reads prevState r fs"
proof (induction fs arbitrary: st)
  case Nil
  then show ?case by (simp add: tree_reads_def)
next
  case (Cons f fs)
  from Cons.prems obtain st1 where
    s: "file_step clock env config prevState r owner repoName st f = Normal st1" and
    l: "file_loop clock env config prevState r owner repoName st1 fs = Normal st'"
    by (auto split: completion.splits)
  from Cons.IH[OF l] file_step_exact(1)[OF s] show ?case
    by (simp add: tree_reads_def)
qed

lemma file_loop_append:
  "file_loop clock env config prevState r owner repoName st (xs @ ys) =
     (case file_loop clock env config prevState r owner repoName st xs of
        Abrupt e st' \<Rightarrow> Abrupt e st'
      | Normal st' \<Rightarrow> file_loop clock env config prevState r owner repoName st' ys)"
  by (induction xs arbitrary: st) (auto split: completion.splits)

lemma file_loop_exact:
  assumes "file_loop clock env config prevState r owner repoName st (T1 @ t # T2) = Normal st'"
    and "\<forall>t'\<in>set T2. TreeEntry.path t' \<noteq> TreeEntry.path t"
  shows "\<exists>b'. repos (newState st') (full_name r) = Some b' \<and>
           files b' (TreeEntry.path t) =
             Some \<lparr>FileEntry.sha = TreeEntry.sha t,
                   lastFetched = Some (stamp_at clock prevState r t
                                         (ticks st + tree_reads prevState r T1))\<rparr>"
proof -
  from assms(1) obtain st1 st2 where
    l1: "file_loop clock env config prevState r owner repoName st T1 = Normal st1" and
    s: "file_step clock env config prevState r owner repoName st1 t = Normal st2" and
    l2: "file_loop clock env config prevState r owner repoName st2 T2 = Normal st'"
    by (auto simp: file_loop_append split: completion.splits)
  from file_loop_ticks[OF l1] have k: "ticks st1 = ticks st + tree_reads prevState r T1" .
  from file_step_exact(2)[OF s] obtain b where
    b2: "repos (newState st2) (full_name r) =
           Some (b\<lparr>files := (files b)(TreeEntry.path t \<mapsto>
                \<lparr>FileEntry.sha = TreeEntry.sha t,
                 lastFetched = Some (stamp_at clock prevState r t (ticks st1))\<rparr>)\<rparr>)"
    by auto
  from file_loop_store[OF l2 b2] obtain b' where
    b': "repos (newState st') (full_name r) = Some b'" and
    ok: "bucket_ok clock prevState (full_name r)
           (files (b\<lparr>files := (files b)(TreeEntry.path t \<mapsto>
                \<lparr>FileEntry.sha = TreeEntry.sha t,
                 lastFetched = Some (stamp_at clock prevState r t (ticks st1))\<rparr>)\<rparr>))
           T2 (ticks st2) (ticks st') (files b')"
    by auto
  from assms(2) have "last_with (\<lambda>t'. TreeEntry.path t' = TreeEntry.path t) T2 = None"
    by (simp add: last_with_None)
  from bucket_ok_NoneD[OF ok this] b' k show ?thesis by simp
qed

lemma repo_step_ticks:
  "repo_step clock env config prevState st r = Normal st' \<Longrightarrow>
   ticks st' = ticks st + repo_reads env prevState r"
  by (auto simp: repo_step_def Let_def repo_reads_def tree_of_def
           split: prod.splits sum.splits dest!: file_loop_ticks)

lemma repo_step_exact:
  assumes "repo_step clock env config prevState st r = Normal st'"
    and "tree_of env r = Inr (T1 @ t # T2)"
    and "\<forall>t'\<in>set T2. TreeEntry.path t' \<noteq> TreeEntry.path t"
  shows "\<exists>b'. repos (newState st') (full_name r) = Some b' \<and>
           files b' (TreeEntry.path t) =
             Some \<lparr>FileEntry.sha = TreeEntry.sha t,
                   lastFetched = Some (stamp_at clock prevState r t
                                         (ticks st + tree_reads prevState r T1))\<rparr>"
  using assms(1,2)
  by (auto simp: repo_step_def Let_def tree_of_def split: prod.splits sum.splits
           dest!: file_loop_exact[OF _ assms(3)])

lemma repo_loop_ticks:
  "repo_loop clock env config prevState st rs = Normal st' \<Longrightarrow>
   ticks st' = ticks st + clock_reads env prevState rs"
proof (induction rs arbitrary: st)
  case Nil
  then show ?case by (simp add: clock_reads_def)
next
  case (Cons r rs)
  from Cons.prems obtain st1 where
    s: "repo_step clock env config prevState st r = Normal st1" and
    l: "repo_loop clock env config prevState st1 rs = Normal st'"
    by (auto split: completion.splits)
  from Cons.IH[OF l] repo_step_ticks[OF s] show ?case
    by (simp add: clock_reads_def)
qed

lemma repo_loop_append:
  "repo_loop clock env config prevState st (xs @ ys) =
     (case repo_loop clock env config prevState st xs of
        Abrupt e st' \<Rightarrow> Abrupt e st'
      | Normal st' \<Rightarrow> repo_loop clock env config prevState st' ys)"
  by (induction xs arbitrary: st) (auto split: completion.splits)

lemma repo_loop_exact:
  assumes "repo_loop clock env config prevState st (rs1 @ r # rs2) = Normal st'"
    and "\<forall>r'\<in>set rs2. full_name r' \<noteq> full_name r"
    and "tree_of env r = Inr (T1 @ t # T2)"
    and "\<forall>t'\<in>set T2. TreeEntry.path t' \<noteq> TreeEntry.path t"
  shows "\<exists>b'. repos (newState st') (full_name r) = Some b' \<and>
           files b' (TreeEntry.path t) =
             Some \<lparr>FileEntry.sha = TreeEntry.sha t,
                   lastFetched = Some (stamp_at clock prevState r t
                     (ticks st + clock_reads env prevState rs1 + tree_reads prevState r T1))\<rparr>"
proof -
  from assms(1) obtain st1 st2 where
    l1: "repo_loop clock env config prevState st rs1 = Normal st1" and
    s: "repo_step clock env config prevState st1 r = Normal st2" and
    l2: "repo_loop clock env config prevState st2 rs2 = Normal st'"
    by (auto simp: repo_loop_append split: completion.splits)
  from repo_loop_ticks[OF l1] have k: "ticks st1 = ticks st + clock_reads env prevState rs1" .
  from repo_step_exact[OF s assms(3,4)] obtain b' where
    b': "repos (newState st2) (full_name r) = Some b'"
      "files b' (TreeEntry.path t) =
             Some \<lparr>FileEntry.sha = TreeEntry.sha t,
                   lastFetched = Some (stamp_at clock prevState r t
                                         (ticks st1 + tree_reads prevState r T1))\<rparr>"
    by blast
  from assms(2) have "last_with (\<lambda>r'. full_name r' = full_name r \<and> tree_ok env r') rs2 = None"
    by (simp add: last_with_None)
  with repo_loop_store[OF l2] have "repos (newState st') (full_name r) = repos (newState st2) (full_name r)"
    by (auto dest!: spec[of _ "full_name r"])
  with b' k show ?thesis by simp
qed

lemma resolved_exact:
  assumes "listOrgRepos env (org config) = Inr allRepos"
    and "retained config allRepos = rs1 @ r # rs2"
    and "\<forall>r'\<in>set rs2. full_name r' \<noteq> full_name r"
    and "tree_of env r = Inr (T1 @ t # T2)"
    and "\<forall>t'\<in>set T2. TreeEntry.path t' \<noteq> TreeEntry.path t"
  shows "\<exists>b. repos (newState (snd (scrapeOrg clock env config arg))) (full_name r) = Some b \<and>
           files b (TreeEntry.path t) =
             Some \<lparr>FileEntry.sha = TreeEntry.sha t,
                   lastFetched = Some (stamp_at clock (default_prevState arg) r t
                     (1 + clock_reads env (default_prevState arg) rs1 +
                      tree_reads (default_prevState arg) r T1))\<rparr>"
proof -
  from scrapeOrg_resolved[OF assms(1), where clock=clock and arg=arg] obtain st' where
    l: "repo_loop clock env config (default_prevState arg) (start clock config)
          (retained config allRepos) = Normal st'" and
    s: "scrapeOrg clock env config arg =
          (Inr (results st', newState st'),
           emit config Phase_done None (Some (totalFetched st')) (Some (totalSkipped st'))
             (Some (totalFiles st')) None st')"
    by blast
  from repo_loop_exact[OF l[unfolded assms(2)] assms(3-5)] s show ?thesis
    by (simp add: start_fields)
qed

lemma resolved_ticks:
  assumes "listOrgRepos env (org config) = Inr allRepos"
  shows "ticks (snd (scrapeOrg clock env config arg)) =
           1 + clock_reads env (default_prevState arg) (retained config allRepos)"
proof -
  from scrapeOrg_resolved[OF assms(1), where clock=clock and arg=arg] obtain st' where
    l: "repo_loop clock env config (default_prevState arg) (start clock config)
          (retained config allRepos) = Normal st'" and
    s: "scrapeOrg clock env config arg =
          (Inr (results st', newState st'),
           emit config Phase_done None (Some (totalFetched st')) (Some (totalSkipped st'))
             (Some (totalFiles st')) None st')"
    by blast
  from repo_loop_ticks[OF l] s show ?thesis by (simp add: start_fields)
qed

section \<open>The run on the object store\<close>

lemma emit_h_heap [simp]:
  "heap (emit_h config ph rp f s t msg st) = heap st"
  "newStateRef (emit_h config ph rp f s t msg st) = newStateRef st"
  by (simp_all add: emit_h_def)

lemma new_lastFetched_h_heap:
  "new_lastFetched_h clock pe file st = (x, st1) \<Longrightarrow>
   heap st1 = heap st \<and> newStateRef st1 = newStateRef st"
  by (auto simp: new_lastFetched_h_def Date_now_h_def split: if_splits option.splits)

lemma grows_refl: "\<forall>a ob. cells h a = Some ob \<longrightarrow> a < fresh h \<Longrightarrow> grows h h"
  unfolding grows_def by (metis leD order_refl)

lemma grows_alloc:
  assumes "grows h0 h" and "alloc ob h = (a, h')"
    and "\<forall>k x. get_ref ob k = Some x \<longrightarrow> fresh h0 \<le> x"
  shows "grows h0 h'" and "fresh h0 \<le> a" and "cells h' a = Some ob"
proof -
  from assms(2) have a: "a = fresh h" and h': "h' = \<lparr>cells = (cells h)(fresh h \<mapsto> ob), fresh = Suc (fresh h)\<rparr>"
    by (auto simp: alloc_def)
  from assms(1) have g: "fresh h0 \<le> fresh h" "\<And>a. a < fresh h0 \<Longrightarrow> cells h a = cells h0 a"
    "\<And>a ob. cells h a = Some ob \<Longrightarrow> a < fresh h"
    "\<And>a ob k x. fresh h0 \<le> a \<Longrightarrow> cells h a = Some ob \<Longrightarrow> get_ref ob k = Some x \<Longrightarrow> fresh h0 \<le> x"
    unfolding grows_def by blast+
  show "fresh h0 \<le> a" using a g(1) by simp
  show "cells h' a = Some ob" using a h' by simp
  show "grows h0 h'"
    unfolding grows_def
  proof (intro conjI allI impI)
    show "fresh h0 \<le> fresh h'" using h' g(1) by simp
  next
    fix b assume "b < fresh h0"
    with g(1,2) h' show "cells h' b = cells h0 b" by simp
  next
    fix b ob' assume "cells h' b = Some ob'"
    with h' g(3) show "b < fresh h'" by (auto simp: less_Suc_eq split: if_splits)
  next
    fix b ob' k x
    assume "fresh h0 \<le> b" "cells h' b = Some ob'" "get_ref ob' k = Some x"
    with h' g(4) assms(3) show "fresh h0 \<le> x" by (auto split: if_splits)
  qed
qed

lemma grows_set_key:
  assumes "grows h0 h" and "set_key h (Some t) k v = Inr h'"
    and "fresh h0 \<le> t" and "fresh h0 \<le> v"
  shows "grows h0 h'"
proof -
  from assms(2) obtain d where d: "cells h t = Some (Dict d)"
    and h': "h' = h\<lparr>cells := (cells h)(t \<mapsto> Dict (d(k \<mapsto> v)))\<rparr>"
    by (auto simp: set_key_def split: option.splits obj.splits)
  from assms(1) have g: "fresh h0 \<le> fresh h" "\<And>a. a < fresh h0 \<Longrightarrow> cells h a = cells h0 a"
    "\<And>a ob. cells h a = Some ob \<Longrightarrow> a < fresh h"
    "\<And>a ob k x. fresh h0 \<le> a \<Longrightarrow> cells h a = Some ob \<Longrightarrow> get_ref ob k = Some x \<Longrightarrow> fresh h0 \<le> x"
    unfolding grows_def by blast+
  show ?thesis
    unfolding grows_def
  proof (intro conjI allI impI)
    show "fresh h0 \<le> fresh h'" using h' g(1) by simp
  next
    fix b assume "b < fresh h0"
    with g(2) h' assms(3) show "cells h' b = cells h0 b" by simp
  next
    fix b ob' assume "cells h' b = Some ob'"
    with h' g(3) d show "b < fresh h'" by (auto split: if_splits)
  next
    fix b ob' k' x
    assume b: "fresh h0 \<le> b" "cells h' b = Some ob'" "get_ref ob' k' = Some x"
    show "fresh h0 \<le> x"
    proof (cases "b = t")
      case True
      with b h' have "ob' = Dict (d(k \<mapsto> v))" by simp
      with b(3) have "x = v \<or> get_ref (Dict d) k' = Some x" by (auto split: if_splits)
      with assms(3,4) g(4)[OF assms(3) d] show ?thesis by auto
    next
      case False
      with b h' g(4) show ?thesis by auto
    qed
  qed
qed

lemma get_prop_new:
  assumes "grows h0 h" and "get_prop h (Some a) k = Inr (Some x)" and "fresh h0 \<le> a"
  shows "fresh h0 \<le> x"
  using assms unfolding grows_def get_prop_def
  by (auto split: option.splits)

lemma file_step_h_inv:
  assumes "run_inv h0 st"
  shows "case file_step_h clock env config prevState r owner repoName st file of
           HNormal st' \<Rightarrow> run_inv h0 st'
         | HAbrupt e st' \<Rightarrow> run_inv h0 st'"
proof -
  from assms have g: "grows h0 (heap st)" and n: "fresh h0 \<le> newStateRef st"
    by (simp_all add: run_inv_def)
  show ?thesis
  proof (cases "prevEntry_h (heap st) prevState (full_name r) (TreeEntry.path file)")
    case (Inl e)
    with assms show ?thesis by (simp add: file_step_h_def)
  next
    case pe: (Inr prevEntry)
    show ?thesis
    proof (cases "get_prop (heap st) (Some (newStateRef st)) ''repos''")
      case (Inl e)
      with pe assms show ?thesis by (simp add: file_step_h_def)
    next
      case rs: (Inr rs)
      show ?thesis
      proof (cases "get_prop (heap st) rs (full_name r)")
        case (Inl e)
        with pe rs assms show ?thesis by (simp add: file_step_h_def)
      next
        case bk: (Inr bucket)
        show ?thesis
        proof (cases "get_prop (heap st) bucket ''files''")
          case (Inl e)
          with pe rs bk assms show ?thesis by (simp add: file_step_h_def)
        next
          case tg: (Inr target)
          obtain stamp st1 where nl: "new_lastFetched_h clock prevEntry file st = (stamp, st1)"
            by (cases "new_lastFetched_h clock prevEntry file st")
          from new_lastFetched_h_heap[OF nl] have h1: "heap st1 = heap st" "newStateRef st1 = newStateRef st"
            by simp_all
          obtain entry h1 where al: "alloc (Entry (TreeEntry.sha file) (Some stamp)) (heap st1) = (entry, h1)"
            by (cases "alloc (Entry (TreeEntry.sha file) (Some stamp)) (heap st1)")
          from grows_alloc[OF _ al] g h1 have g1: "grows h0 h1" and e: "fresh h0 \<le> entry"
            by simp_all
          show ?thesis
          proof (cases "set_key h1 target (TreeEntry.path file) entry")
            case (Inl e)
            with pe rs bk tg nl al g1 n h1 show ?thesis
              by (simp add: file_step_h_def run_inv_def)
          next
            case (Inr h2)
            then obtain t where t: "target = Some t"
              by (auto simp: set_key_def split: option.splits)
            from tg t bk obtain b where b: "bucket = Some b"
              by (auto simp: get_prop_def split: option.splits)
            from bk b rs obtain a where a: "rs = Some a"
              by (auto simp: get_prop_def split: option.splits)
            from get_prop_new[OF g rs[unfolded a] n] have "fresh h0 \<le> a" .
            from get_prop_new[OF g bk[unfolded a b] this] have "fresh h0 \<le> b" .
            from get_prop_new[OF g tg[unfolded b t] this] have "fresh h0 \<le> t" .
            from grows_set_key[OF g1 Inr[unfolded t] this e] have g2: "grows h0 h2" .
            with pe rs bk tg nl al Inr n h1 show ?thesis
              by (auto simp: file_step_h_def run_inv_def Let_def split: sum.splits)
          qed
        qed
      qed
    qed
  qed
qed

lemma file_loop_h_inv:
  assumes "run_inv h0 st"
  shows "case file_loop_h clock env config prevState r owner repoName st fs of
           HNormal st' \<Rightarrow> run_inv h0 st'
         | HAbrupt e st' \<Rightarrow> run_inv h0 st'"
  using assms
proof (induction fs arbitrary: st)
  case Nil
  then show ?case by simp
next
  case (Cons f fs)
  from file_step_h_inv[OF Cons.prems, of clock env config prevState r owner repoName f]
  show ?case
  proof (cases "file_step_h clock env config prevState r owner repoName st f")
    case (HNormal st1)
    with file_step_h_inv[OF Cons.prems, of clock env config prevState r owner repoName f]
    have "run_inv h0 st1" by simp
    from Cons.IH[OF this] HNormal show ?thesis by simp
  next
    case (HAbrupt e st1)
    with file_step_h_inv[OF Cons.prems, of clock env config prevState r owner repoName f]
    show ?thesis by simp
  qed
qed

lemma repo_step_h_inv:
  assumes "run_inv h0 st"
  shows "case repo_step_h clock env config prevState st r of
           HNormal st' \<Rightarrow> run_inv h0 st'
         | HAbrupt e st' \<Rightarrow> run_inv h0 st'"
proof -
  from assms have g: "grows h0 (heap st)" and n: "fresh h0 \<le> newStateRef st"
    by (simp_all add: run_inv_def)
  obtain owner repoName where on: "owner_and_repoName (full_name r) = (owner, repoName)"
    by (cases "owner_and_repoName (full_name r)")
  define st1 where "st1 = emit_h config Phase_tree (Some (full_name r)) (Some (totalFetched_h st))
                  (Some (totalSkipped_h st)) (Some (totalFiles_h st)) None st"
  define st2 where "st2 = st1\<lparr>requests_h := requests_h st1 @ [GetRepoTree owner repoName (default_branch r)]\<rparr>"
  have h2: "heap st2 = heap st" "newStateRef st2 = newStateRef st"
    by (simp_all add: st2_def st1_def)
  show ?thesis
  proof (cases "getRepoTree env owner repoName (default_branch r)")
    case (Inl err)
    with on h2 assms show ?thesis
      by (simp add: repo_step_h_def Let_def run_inv_def st2_def[symmetric] st1_def[symmetric])
  next
    case (Inr mdFiles)
    define st3 where "st3 = st2\<lparr>totalFiles_h := totalFiles_h st2 + length mdFiles\<rparr>"
    have h3: "heap st3 = heap st" "newStateRef st3 = newStateRef st"
      by (simp_all add: st3_def h2)
    have unfold: "repo_step_h clock env config prevState st r =
      (case get_prop (heap st3) (Some (newStateRef st3)) ''repos'' of
             Inl e \<Rightarrow> HAbrupt e st3
           | Inr target \<Rightarrow>
               (let (fs, h1) = alloc (Dict Map.empty) (heap st3);
                    (bucket, h2) = alloc (Cache fs) h1
                in
                case set_key h2 target (full_name r) bucket of
                  Inl e \<Rightarrow> HAbrupt e (st3\<lparr>heap := h2\<rparr>)
                | Inr h3 \<Rightarrow>
                    file_loop_h clock env config prevState r owner repoName
                      (st3\<lparr>heap := h3\<rparr>) mdFiles))"
      unfolding repo_step_h_def st3_def st2_def st1_def Let_def on Inr prod.case sum.case
      by (rule refl)
    show ?thesis
    proof (cases "get_prop (heap st3) (Some (newStateRef st3)) ''repos''")
      case (Inl e)
      with unfold h3 assms show ?thesis by (simp add: run_inv_def)
    next
      case tg: (Inr target)
      obtain fs h1 where a1: "alloc (Dict Map.empty) (heap st3) = (fs, h1)"
        by (cases "alloc (Dict Map.empty) (heap st3)")
      obtain bucket h2' where a2: "alloc (Cache fs) h1 = (bucket, h2')"
        by (cases "alloc (Cache fs) h1")
      from grows_alloc[OF _ a1] g h3 have g1: "grows h0 h1" and f: "fresh h0 \<le> fs"
        by simp_all
      from grows_alloc[OF g1 a2] f have g2: "grows h0 h2'" and b: "fresh h0 \<le> bucket"
        by simp_all
      show ?thesis
      proof (cases "set_key h2' target (full_name r) bucket")
        case (Inl e)
        with unfold tg a1 a2 g2 n h3 show ?thesis by (simp add: run_inv_def)
      next
        case (Inr h3')
        then obtain t where t: "target = Some t"
          by (auto simp: set_key_def split: option.splits)
        from get_prop_new[OF _ tg[unfolded t]] g n h3 have "fresh h0 \<le> t" by simp
        from grows_set_key[OF g2 Inr[unfolded t] this b] have "grows h0 h3'" .
        with n h3 have "run_inv h0 (st3\<lparr>heap := h3'\<rparr>)" by (simp add: run_inv_def)
        from file_loop_h_inv[OF this] unfold tg a1 a2 Inr show ?thesis by simp
      qed
    qed
  qed
qed

lemma repo_loop_h_inv:
  assumes "run_inv h0 st"
  shows "case repo_loop_h clock env config prevState st rs of
           HNormal st' \<Rightarrow> run_inv h0 st'
         | HAbrupt e st' \<Rightarrow> run_inv h0 st'"
  using assms
proof (induction rs arbitrary: st)
  case Nil
  then show ?case by simp
next
  case (Cons r rs)
  show ?case
  proof (cases "repo_step_h clock env config prevState st r")
    case (HNormal st1)
    with repo_step_h_inv[OF Cons.prems, of clock env config prevState r]
    have "run_inv h0 st1" by simp
    from Cons.IH[OF this] HNormal show ?thesis by simp
  next
    case (HAbrupt e st1)
    with repo_step_h_inv[OF Cons.prems, of clock env config prevState r]
    show ?thesis by simp
  qed
qed

lemma default_prevState_h_grows:
  assumes "\<forall>a ob. cells h a = Some ob \<longrightarrow> a < fresh h"
    and "default_prevState_h arg h = (p, h')"
  shows "grows h h'"
proof (cases arg)
  case None
  obtain rs h1 where a1: "alloc (Dict Map.empty) h = (rs, h1)"
    by (cases "alloc (Dict Map.empty) h")
  from grows_alloc[OF grows_refl[OF assms(1)] a1] have g1: "grows h h1" and r: "fresh h \<le> rs"
    by simp_all
  from assms(2) None a1 have "alloc (State rs None) h1 = (p, h')"
    by (simp add: default_prevState_h_def)
  from grows_alloc(1)[OF g1 this] r show ?thesis by simp
next
  case (Some a)
  with assms show ?thesis by (simp add: default_prevState_h_def grows_refl)
qed

lemma start_h_inv:
  assumes "grows h0 h"
  shows "run_inv h0 (start_h clock config h)"
proof -
  obtain rs h1 where a1: "alloc (Dict Map.empty) h = (rs, h1)"
    by (cases "alloc (Dict Map.empty) h")
  obtain ns h2 where a2: "alloc (State rs (Some (clock 0))) h1 = (ns, h2)"
    by (cases "alloc (State rs (Some (clock 0))) h1")
  from grows_alloc[OF assms a1] have g1: "grows h0 h1" and r: "fresh h0 \<le> rs"
    by simp_all
  from grows_alloc[OF g1 a2] r have "grows h0 h2" and "fresh h0 \<le> ns"
    by simp_all
  with a1 a2 show ?thesis
    by (simp add: start_h_def run_inv_def Let_def)
qed

lemma scrapeOrg_h_inv:
  assumes "\<forall>a ob. cells h a = Some ob \<longrightarrow> a < fresh h"
  shows "run_inv h (snd (scrapeOrg_h clock env config arg h))"
proof -
  obtain p h0 where d: "default_prevState_h arg h = (p, h0)"
    by (cases "default_prevState_h arg h")
  from start_h_inv[OF default_prevState_h_grows[OF assms d]]
  have s: "run_inv h (start_h clock config h0)" .
  show ?thesis
  proof (cases "listOrgRepos env (org config)")
    case (Inl err)
    with d s show ?thesis by (simp add: scrapeOrg_h_def)
  next
    case (Inr allRepos)
    from repo_loop_h_inv[OF s, of clock env config p "retained config allRepos"] d Inr
    show ?thesis
      by (auto simp: scrapeOrg_h_def Let_def run_inv_def split: hcompletion.splits)
  qed
qed

lemma scrapeOrg_h_root:
  "fst (scrapeOrg_h clock env config arg h) = Inr (fs, root) \<Longrightarrow>
   root = newStateRef (snd (scrapeOrg_h clock env config arg h)) \<and>
   fs = results_h (snd (scrapeOrg_h clock env config arg h))"
  by (auto simp: scrapeOrg_h_def Let_def split: prod.splits sum.splits hcompletion.splits)

lemma grows_reaches:
  assumes "grows h0 h" and "reaches h a b" and "fresh h0 \<le> a"
  shows "fresh h0 \<le> b"
  using assms(2,1,3)
proof (induction rule: reaches.induct)
  case (here h a)
  then show ?case by simp
next
  case (step h a ob k x b)
  from step.prems(1) step.prems(2) step.hyps(1,2) have "fresh h0 \<le> x"
    unfolding grows_def by blast
  with step.IH step.prems(1) show ?case by simp
qed

lemma read_state_frame:
  assumes "closed h" and "\<forall>a ob. cells h a = Some ob \<longrightarrow> cells h' a = Some ob"
    and "read_state h p = Some s"
  shows "read_state h' p = Some s"
proof -
  from assms(3) obtain rs ls d where
    p: "cells h p = Some (State rs ls)" and rs: "cells h rs = Some (Dict d)" and
    s: "s = \<lparr>repos = (\<lambda>n. case d n of None \<Rightarrow> None | Some c \<Rightarrow> read_cache h c), lastScrape = ls\<rparr>"
    by (auto simp: read_state_def split: option.splits obj.splits)
  have keep: "cells h' a = cells h a" if "cells h a \<noteq> None" for a
    using that assms(2) by auto
  have ent: "read_entry h' e = read_entry h e" if "cells h e \<noteq> None" for e
    using keep[OF that] by (simp add: read_entry_def)
  have cache: "read_cache h' c = read_cache h c" if c: "cells h c \<noteq> None" for c
  proof (cases "cells h c")
    case None
    with c show ?thesis by simp
  next
    case (Some ob)
    show ?thesis
    proof (cases ob)
      case (Cache fs)
      with Some assms(1) have f: "cells h fs \<noteq> None"
        unfolding closed_def by (metis get_ref.simps(3))
      show ?thesis
      proof (cases "cells h fs")
        case None
        with f show ?thesis by simp
      next
        case fsome: (Some fo)
        show ?thesis
        proof (cases fo)
          case (Dict fd)
          have "(case fd q of None \<Rightarrow> None | Some e \<Rightarrow> read_entry h' e) =
                (case fd q of None \<Rightarrow> None | Some e \<Rightarrow> read_entry h e)" for q
          proof (cases "fd q")
            case None
            then show ?thesis by simp
          next
            case (Some e)
            with fsome Dict assms(1) have "cells h e \<noteq> None"
              unfolding closed_def by (metis get_ref.simps(2))
            with Some ent show ?thesis by simp
          qed
          with Some Cache fsome Dict keep[OF c] keep[OF f] show ?thesis
            by (simp add: read_cache_def)
        qed (use Some Cache fsome keep[OF c] keep[OF f] in \<open>simp_all add: read_cache_def\<close>)
      qed
    qed (use Some keep[OF c] in \<open>simp_all add: read_cache_def\<close>)
  qed
  have "(case d n of None \<Rightarrow> None | Some c \<Rightarrow> read_cache h' c) =
        (case d n of None \<Rightarrow> None | Some c \<Rightarrow> read_cache h c)" for n
  proof (cases "d n")
    case None
    then show ?thesis by simp
  next
    case (Some c)
    with rs assms(1) have "cells h c \<noteq> None"
      unfolding closed_def by (metis get_ref.simps(2))
    with Some cache show ?thesis by simp
  qed
  with p rs s keep[of p] keep[of rs] show ?thesis
    by (simp add: read_state_def)
qed

lemmas heap_defs = scrapeOrg_h_def start_h_def default_prevState_h_def repo_step_h_def
  file_step_h_def new_lastFetched_h_def prevEntry_h_def same_sha_h_def lastFetched_h_def
  Date_now_h_def emit_h_def alloc_def get_prop_def set_key_def retained_def
  owner_and_repoName_def Let_def

section \<open>The two runs agree\<close>

lemma entry_at_frame:
  assumes "\<forall>a ob. cells h a = Some ob \<longrightarrow> cells h' a = Some ob" and "entry_at h ao eo"
  shows "entry_at h' ao eo"
  using assms by (auto simp: entry_at_def split: option.splits)

lemma bucket_at_frame:
  assumes "\<forall>a ob. cells h a = Some ob \<longrightarrow> cells h' a = Some ob" and "bucket_at h c b"
  shows "bucket_at h' c b"
proof -
  from assms(2) obtain fs fd where
    "cells h c = Some (Cache fs)" "cells h fs = Some (Dict fd)" "\<forall>p. entry_at h (fd p) (files b p)"
    unfolding bucket_at_def by blast
  with assms(1) entry_at_frame[OF assms(1)]
  have "cells h' c = Some (Cache fs)" "cells h' fs = Some (Dict fd)"
    "\<forall>p. entry_at h' (fd p) (files b p)"
    by blast+
  then show ?thesis unfolding bucket_at_def by blast
qed

lemma state_at_frame:
  assumes "\<forall>a ob. cells h a = Some ob \<longrightarrow> cells h' a = Some ob" and "state_at h a s"
  shows "state_at h' a s"
proof -
  from assms(2) obtain rs d where
    a: "cells h a = Some (State rs (lastScrape s))" and rs: "cells h rs = Some (Dict d)" and
    d: "\<forall>n. case d n of None \<Rightarrow> repos s n = None
             | Some c \<Rightarrow> (\<exists>b. repos s n = Some b \<and> bucket_at h c b)"
    unfolding state_at_def by blast
  have "case d n of None \<Rightarrow> repos s n = None
        | Some c \<Rightarrow> (\<exists>b. repos s n = Some b \<and> bucket_at h' c b)" for n
    using d[rule_format, of n] bucket_at_frame[OF assms(1)]
    by (auto split: option.splits)
  with a rs assms(1) show ?thesis unfolding state_at_def by blast
qed

lemma grows_frame:
  assumes "\<forall>a ob. cells h0 a = Some ob \<longrightarrow> a < fresh h0" and "grows h0 h"
  shows "\<forall>a ob. cells h0 a = Some ob \<longrightarrow> cells h a = Some ob"
  using assms unfolding grows_def by metis

lemma grows_wf: "grows h0 h \<Longrightarrow> \<forall>a ob. cells h a = Some ob \<longrightarrow> a < fresh h"
  unfolding grows_def by blast

lemma entry_at_read:
  "entry_at h ao eo \<Longrightarrow> (case ao of None \<Rightarrow> None | Some e \<Rightarrow> read_entry h e) = eo"
  by (auto simp: entry_at_def read_entry_def split: option.splits)

lemma bucket_at_read: "bucket_at h c b \<Longrightarrow> read_cache h c = Some b"
proof -
  assume "bucket_at h c b"
  then obtain fs fd where
    c: "cells h c = Some (Cache fs)" and fs: "cells h fs = Some (Dict fd)" and
    e: "\<forall>p. entry_at h (fd p) (files b p)"
    unfolding bucket_at_def by blast
  have "(\<lambda>p. case fd p of None \<Rightarrow> None | Some e \<Rightarrow> read_entry h e) = files b"
    using e entry_at_read by (intro ext) blast
  with c fs show ?thesis by (simp add: read_cache_def)
qed

lemma state_at_read: "state_at h a s \<Longrightarrow> read_state h a = Some s"
proof -
  assume "state_at h a s"
  then obtain rs d where
    a: "cells h a = Some (State rs (lastScrape s))" and rs: "cells h rs = Some (Dict d)" and
    d: "\<forall>n. case d n of None \<Rightarrow> repos s n = None
             | Some c \<Rightarrow> (\<exists>b. repos s n = Some b \<and> bucket_at h c b)"
    unfolding state_at_def by blast
  have "(case d n of None \<Rightarrow> None | Some c \<Rightarrow> read_cache h c) = repos s n" for n
    using d[rule_format, of n] bucket_at_read by (auto split: option.splits)
  then have "(\<lambda>n. case d n of None \<Rightarrow> None | Some c \<Rightarrow> read_cache h c) = repos s"
    by (intro ext)
  with a rs show ?thesis by (simp add: read_state_def)
qed

lemma prevEntry_h_at:
  assumes "state_at h p prev"
  shows "\<exists>ao. prevEntry_h h p n q = Inr ao \<and> entry_at h ao (prev_entry prev n q)"
proof -
  from assms obtain rs d where
    a: "cells h p = Some (State rs (lastScrape prev))" and rs: "cells h rs = Some (Dict d)" and
    d: "\<forall>n. case d n of None \<Rightarrow> repos prev n = None
             | Some c \<Rightarrow> (\<exists>b. repos prev n = Some b \<and> bucket_at h c b)"
    unfolding state_at_def by blast
  show ?thesis
  proof (cases "d n")
    case None
    with d[rule_format, of n] have "repos prev n = None" by simp
    with a rs None show ?thesis
      by (simp add: prevEntry_h_def get_prop_def prev_entry_def entry_at_def)
  next
    case (Some c)
    with d[rule_format, of n] obtain b where b: "repos prev n = Some b" "bucket_at h c b"
      by auto
    then obtain fs fd where
      c: "cells h c = Some (Cache fs)" and fs: "cells h fs = Some (Dict fd)" and
      e: "\<forall>p. entry_at h (fd p) (files b p)"
      unfolding bucket_at_def by blast
    from a rs Some c fs have "prevEntry_h h p n q = Inr (fd q)"
      by (simp add: prevEntry_h_def get_prop_def)
    with e b show ?thesis by (simp add: prev_entry_def)
  qed
qed

lemma entry_at_same_sha:
  "entry_at h ao eo \<Longrightarrow> same_sha_h h ao file = same_sha eo file"
  by (auto simp: entry_at_def same_sha_h_def same_sha_def split: option.splits)

lemma entry_at_lastFetched:
  "entry_at h ao eo \<Longrightarrow>
   lastFetched_h h ao = (case eo of None \<Rightarrow> None | Some e \<Rightarrow> lastFetched e)"
  by (auto simp: entry_at_def lastFetched_h_def split: option.splits)

lemma write_entry:
  assumes wf: "\<forall>a ob. cells H a = Some ob \<longrightarrow> a < fresh H"
    and st: "state_at H root ns" and un: "unshared H root"
    and b: "repos ns nm = Some bucket"
  shows "\<exists>rs c fs. get_prop H (Some root) ''repos'' = Inr (Some rs) \<and>
           get_prop H (Some rs) nm = Inr (Some c) \<and>
           get_prop H (Some c) ''files'' = Inr (Some fs) \<and>
           (\<forall>e h1. alloc (Entry s t) H = (e, h1) \<longrightarrow>
              (\<exists>H2. set_key h1 (Some fs) q e = Inr H2 \<and>
                 state_at H2 root
                   (ns\<lparr>repos := (repos ns)(nm \<mapsto>
                       bucket\<lparr>files := (files bucket)(q \<mapsto> \<lparr>FileEntry.sha = s, lastFetched = t\<rparr>)\<rparr>)\<rparr>) \<and>
                 unshared H2 root \<and> (\<forall>a ob. cells H2 a = Some ob \<longrightarrow> a < fresh H2) \<and>
                 (\<forall>x y z. cells H x = Some (Entry y z) \<longrightarrow> cells H2 x = Some (Entry y z))))"
proof -
  from st obtain rs d where
    root: "cells H root = Some (State rs (lastScrape ns))" and rs: "cells H rs = Some (Dict d)" and
    d: "\<And>n. case d n of None \<Rightarrow> repos ns n = None
             | Some c \<Rightarrow> (\<exists>b. repos ns n = Some b \<and> bucket_at H c b)"
    unfolding state_at_def by blast
  from d[of nm] b obtain c where c: "d nm = Some c" and bc: "bucket_at H c bucket"
    by (auto split: option.splits)
  from bc obtain fs fd where
    cc: "cells H c = Some (Cache fs)" and fs: "cells H fs = Some (Dict fd)" and
    en: "\<And>p. entry_at H (fd p) (files bucket p)"
    unfolding bucket_at_def by blast
  from un root rs c cc have sep: "fs \<noteq> rs"
    "\<And>n' c'. d n' = Some c' \<Longrightarrow> cells H c' = Some (Cache fs) \<Longrightarrow> n' = nm"
    unfolding unshared_def by blast+
  define e where "e = fresh H"
  define H2 where "H2 = \<lparr>cells = (cells H)(e \<mapsto> Entry s t, fs \<mapsto> Dict (fd(q \<mapsto> e))), fresh = Suc e\<rparr>"
  define ns' where "ns' = ns\<lparr>repos := (repos ns)(nm \<mapsto>
                       bucket\<lparr>files := (files bucket)(q \<mapsto> \<lparr>FileEntry.sha = s, lastFetched = t\<rparr>)\<rparr>)\<rparr>"
  have lt: "a < e" if "cells H a = Some ob" for a ob
    using wf that unfolding e_def by blast
  have c2: "cells H2 x = (if x = fs then Some (Dict (fd(q \<mapsto> e)))
                          else if x = e then Some (Entry s t) else cells H x)" for x
    by (simp add: H2_def)
  have keepC: "cells H2 x = Some (Cache y)" if "cells H x = Some (Cache y)" for x y
    using that fs lt[OF that] by (auto simp: c2)
  have keepE: "cells H2 x = Some (Entry y z)" if "cells H x = Some (Entry y z)" for x y z
    using that fs lt[OF that] by (auto simp: c2)
  have backC: "cells H x = Some (Cache y)" if "cells H2 x = Some (Cache y)" for x y
    using that by (auto simp: c2 split: if_splits)
  have k1: "cells H2 root = Some (State rs (lastScrape ns))"
    using root fs lt[OF root] by (auto simp: c2)
  have k2: "cells H2 rs = Some (Dict d)"
    using rs sep(1) lt[OF rs] by (auto simp: c2)
  have k3: "cells H2 fs = Some (Dict (fd(q \<mapsto> e)))" by (simp add: c2)
  have k4: "cells H2 e = Some (Entry s t)" using lt[OF fs] by (simp add: c2)
  have pe: "entry_at H2 ao eo" if "entry_at H ao eo" for ao eo
    using that keepE by (auto simp: entry_at_def split: option.splits)
  have cur: "bucket_at H2 c (bucket\<lparr>files := (files bucket)(q \<mapsto> \<lparr>FileEntry.sha = s, lastFetched = t\<rparr>)\<rparr>)"
  proof -
    have "entry_at H2 ((fd(q \<mapsto> e)) p)
            (((files bucket)(q \<mapsto> \<lparr>FileEntry.sha = s, lastFetched = t\<rparr>)) p)" for p
    proof (cases "p = q")
      case True
      with k4 show ?thesis by (simp add: entry_at_def)
    next
      case False
      with pe[OF en[of p]] show ?thesis by simp
    qed
    with keepC[OF cc] k3 show ?thesis unfolding bucket_at_def by simp
  qed
  have other: "bucket_at H2 c' b'" if n: "n \<noteq> nm" and dn: "d n = Some c'" and b': "bucket_at H c' b'"
    for n c' b'
  proof -
    from b' obtain fs' fd' where
      cc': "cells H c' = Some (Cache fs')" and fs': "cells H fs' = Some (Dict fd')" and
      en': "\<And>p. entry_at H (fd' p) (files b' p)"
      unfolding bucket_at_def by blast
    from sep(2)[OF dn] cc' n have "fs' \<noteq> fs" by blast
    with fs' lt[OF fs'] have "cells H2 fs' = Some (Dict fd')" by (auto simp: c2)
    with keepC[OF cc'] pe[OF en'] show ?thesis unfolding bucket_at_def by blast
  qed
  have st2: "state_at H2 root ns'"
  proof -
    have "case d n of None \<Rightarrow> repos ns' n = None
          | Some c' \<Rightarrow> (\<exists>b'. repos ns' n = Some b' \<and> bucket_at H2 c' b')" for n
    proof (cases "n = nm")
      case True
      with c cur show ?thesis by (simp add: ns'_def)
    next
      case False
      with d[of n] other[OF False] show ?thesis
        by (auto simp: ns'_def split: option.splits)
    qed
    with k1 k2 show ?thesis unfolding state_at_def by (auto simp: ns'_def)
  qed
  have un2: "unshared H2 root"
    unfolding unshared_def
  proof (intro allI impI)
    fix rs2 ls2 d2 n c' fs'
    assume a: "cells H2 root = Some (State rs2 ls2)" "cells H2 rs2 = Some (Dict d2)"
      "d2 n = Some c'" "cells H2 c' = Some (Cache fs')"
    with k1 k2 have eq: "rs2 = rs" "d2 = d" by simp_all
    from a(4) have cH: "cells H c' = Some (Cache fs')" by (rule backC)
    from un root rs a(3)[unfolded eq] cH have
      u: "fs' \<noteq> rs" "\<And>n' c''. d n' = Some c'' \<Longrightarrow> cells H c'' = Some (Cache fs') \<Longrightarrow> n' = n"
      unfolding unshared_def by blast+
    show "fs' \<noteq> rs2 \<and> (\<forall>n' c''. d2 n' = Some c'' \<longrightarrow> cells H2 c'' = Some (Cache fs') \<longrightarrow> n' = n)"
      using u backC eq by blast
  qed
  have wf2: "\<forall>a ob. cells H2 a = Some ob \<longrightarrow> a < fresh H2"
  proof (intro allI impI)
    fix a ob assume "cells H2 a = Some ob"
    then have "a = fs \<or> a = e \<or> cells H a = Some ob" by (auto simp: c2 split: if_splits)
    with lt[OF fs] lt[of a ob] show "a < fresh H2" by (auto simp: H2_def)
  qed
  have g1: "get_prop H (Some root) ''repos'' = Inr (Some rs)"
    using root by (simp add: get_prop_def)
  have g2: "get_prop H (Some rs) nm = Inr (Some c)"
    using rs c by (simp add: get_prop_def)
  have g3: "get_prop H (Some c) ''files'' = Inr (Some fs)"
    using cc by (simp add: get_prop_def)
  have sk: "set_key h1 (Some fs) q e' = Inr H2" if "alloc (Entry s t) H = (e', h1)" for e' h1
  proof -
    from that have "e' = e" "h1 = \<lparr>cells = (cells H)(e \<mapsto> Entry s t), fresh = Suc e\<rparr>"
      by (auto simp: alloc_def e_def)
    with fs lt[OF fs] show ?thesis
      by (simp add: set_key_def H2_def)
  qed
  from g1 g2 g3 sk st2 un2 wf2 keepE show ?thesis
    unfolding ns'_def by blast
qed

lemma write_bucket:
  assumes wf: "\<forall>a ob. cells H a = Some ob \<longrightarrow> a < fresh H"
    and st: "state_at H root ns" and un: "unshared H root"
  shows "\<exists>rs. get_prop H (Some root) ''repos'' = Inr (Some rs) \<and>
           (\<forall>f h1 c h2. alloc (Dict Map.empty) H = (f, h1) \<longrightarrow> alloc (Cache f) h1 = (c, h2) \<longrightarrow>
              (\<exists>H3. set_key h2 (Some rs) nm c = Inr H3 \<and>
                 state_at H3 root (ns\<lparr>repos := (repos ns)(nm \<mapsto> \<lparr>files = Map.empty\<rparr>)\<rparr>) \<and>
                 unshared H3 root \<and> (\<forall>a ob. cells H3 a = Some ob \<longrightarrow> a < fresh H3)))"
proof -
  from st obtain rs d where
    root: "cells H root = Some (State rs (lastScrape ns))" and rs: "cells H rs = Some (Dict d)" and
    d: "\<And>n. case d n of None \<Rightarrow> repos ns n = None
             | Some c \<Rightarrow> (\<exists>b. repos ns n = Some b \<and> bucket_at H c b)"
    unfolding state_at_def by blast
  define f where "f = fresh H"
  define c where "c = Suc (fresh H)"
  define H3 where "H3 = \<lparr>cells = (cells H)(f \<mapsto> Dict Map.empty, c \<mapsto> Cache f,
                                  rs \<mapsto> Dict (d(nm \<mapsto> c))), fresh = Suc c\<rparr>"
  define ns' where "ns' = ns\<lparr>repos := (repos ns)(nm \<mapsto> \<lparr>files = Map.empty\<rparr>)\<rparr>"
  have lt: "a < f" if "cells H a = Some ob" for a ob
    using wf that unfolding f_def by blast
  have fc: "f < c" by (simp add: f_def c_def)
  have c3: "cells H3 x = (if x = rs then Some (Dict (d(nm \<mapsto> c)))
                          else if x = c then Some (Cache f)
                          else if x = f then Some (Dict Map.empty) else cells H x)" for x
    by (simp add: H3_def)
  have keepC: "cells H3 x = Some (Cache y)" if "cells H x = Some (Cache y)" for x y
    using that rs lt[OF that] fc by (auto simp: c3)
  have keepE: "cells H3 x = Some (Entry y z)" if "cells H x = Some (Entry y z)" for x y z
    using that rs lt[OF that] fc by (auto simp: c3)
  have keepD: "cells H3 x = Some (Dict y)" if "cells H x = Some (Dict y)" "x \<noteq> rs" for x y
    using that lt[OF that(1)] fc by (auto simp: c3)
  have backC: "x = c \<and> y = f \<or> cells H x = Some (Cache y)" if "cells H3 x = Some (Cache y)" for x y
    using that by (auto simp: c3 split: if_splits)
  have k1: "cells H3 root = Some (State rs (lastScrape ns))"
    using root rs lt[OF root] fc by (auto simp: c3)
  have k2: "cells H3 rs = Some (Dict (d(nm \<mapsto> c)))" by (simp add: c3)
  have k3: "cells H3 c = Some (Cache f)" using lt[OF rs] fc by (simp add: c3)
  have k4: "cells H3 f = Some (Dict Map.empty)" using lt[OF rs] fc by (simp add: c3)
  have pe: "entry_at H3 ao eo" if "entry_at H ao eo" for ao eo
    using that keepE by (auto simp: entry_at_def split: option.splits)
  have old: "fs' \<noteq> rs \<and> fs' < f \<and> c' < f"
    if dn: "d n = Some c'" and cc': "cells H c' = Some (Cache fs')" for n c' fs'
  proof -
    from d[of n] dn obtain b' where "bucket_at H c' b'" by auto
    with cc' obtain fd' where "cells H fs' = Some (Dict fd')" unfolding bucket_at_def by auto
    from lt[OF this] lt[OF cc'] un root rs dn cc' show ?thesis
      unfolding unshared_def by blast
  qed
  have cur: "bucket_at H3 c \<lparr>files = Map.empty\<rparr>"
    using k3 k4 unfolding bucket_at_def by (simp add: entry_at_def)
  have other: "bucket_at H3 c' b'" if dn: "d n = Some c'" and b': "bucket_at H c' b'" for n c' b'
  proof -
    from b' obtain fs' fd' where
      cc': "cells H c' = Some (Cache fs')" and fs': "cells H fs' = Some (Dict fd')" and
      en': "\<And>p. entry_at H (fd' p) (files b' p)"
      unfolding bucket_at_def by blast
    from old[OF dn cc'] have "fs' \<noteq> rs" by simp
    from keepD[OF fs' this] keepC[OF cc'] pe[OF en'] show ?thesis
      unfolding bucket_at_def by blast
  qed
  have st3: "state_at H3 root ns'"
  proof -
    have "case (d(nm \<mapsto> c)) n of None \<Rightarrow> repos ns' n = None
          | Some c' \<Rightarrow> (\<exists>b'. repos ns' n = Some b' \<and> bucket_at H3 c' b')" for n
    proof (cases "n = nm")
      case True
      with cur show ?thesis by (simp add: ns'_def)
    next
      case False
      with d[of n] other[of n] show ?thesis
        by (auto simp: ns'_def split: option.splits)
    qed
    with k1 k2 show ?thesis unfolding state_at_def by (auto simp: ns'_def)
  qed
  have un3: "unshared H3 root"
    unfolding unshared_def
  proof (intro allI impI)
    fix rs2 ls2 d2 n c' fs'
    assume a: "cells H3 root = Some (State rs2 ls2)" "cells H3 rs2 = Some (Dict d2)"
      "d2 n = Some c'" "cells H3 c' = Some (Cache fs')"
    with k1 k2 have eq: "rs2 = rs" "d2 = d(nm \<mapsto> c)" by simp_all
    have one: "n' = n" if n': "d2 n' = Some c''" and c'': "cells H3 c'' = Some (Cache fs')" for n' c''
    proof (cases "n = nm")
      case True
      with a(3) eq have "c' = c" by simp
      with a(4) k3 have fs'f: "fs' = f" by simp
      show ?thesis
      proof (cases "n' = nm")
        case False
        with n' eq have dn': "d n' = Some c''" by simp
        from backC[OF c''] fs'f have "c'' = c \<or> cells H c'' = Some (Cache f)" by blast
        then show ?thesis
        proof
          assume "c'' = c"
          from d[of n'] dn' obtain b' where "bucket_at H c'' b'" by auto
          then obtain y where "cells H c'' = Some (Cache y)" unfolding bucket_at_def by blast
          from lt[OF this] \<open>c'' = c\<close> fc show ?thesis by simp
        next
          assume "cells H c'' = Some (Cache f)"
          from old[OF dn' this] show ?thesis by simp
        qed
      qed (simp add: True)
    next
      case False
      with a(3) eq have dn: "d n = Some c'" by simp
      from d[of n] dn obtain b' where "bucket_at H c' b'" by auto
      then obtain y where y: "cells H c' = Some (Cache y)" unfolding bucket_at_def by blast
      from keepC[OF y] a(4) have "y = fs'" by simp
      with y have cc': "cells H c' = Some (Cache fs')" by simp
      show ?thesis
      proof (cases "n' = nm")
        case True
        with n' eq have "c'' = c" by simp
        with c'' k3 have "fs' = f" by simp
        with old[OF dn cc'] show ?thesis by simp
      next
        case F: False
        with n' eq have dn': "d n' = Some c''" by simp
        from d[of n'] dn' obtain b'' where "bucket_at H c'' b''" by auto
        then obtain z where z: "cells H c'' = Some (Cache z)" unfolding bucket_at_def by blast
        from keepC[OF z] c'' have "z = fs'" by simp
        with z un root rs dn cc' dn' show ?thesis unfolding unshared_def by blast
      qed
    qed
    have "fs' \<noteq> rs"
    proof (cases "n = nm")
      case True
      with a(3) eq have "c' = c" by simp
      with a(4) k3 have "fs' = f" by simp
      with lt[OF rs] show ?thesis by simp
    next
      case False
      with a(3) eq have dn: "d n = Some c'" by simp
      from d[of n] dn obtain b' where "bucket_at H c' b'" by auto
      then obtain y where y: "cells H c' = Some (Cache y)" unfolding bucket_at_def by blast
      from keepC[OF y] a(4) have "y = fs'" by simp
      with old[OF dn y] show ?thesis by simp
    qed
    with one eq show "fs' \<noteq> rs2 \<and> (\<forall>n' c''. d2 n' = Some c'' \<longrightarrow> cells H3 c'' = Some (Cache fs') \<longrightarrow> n' = n)"
      by blast
  qed
  have wf3: "\<forall>a ob. cells H3 a = Some ob \<longrightarrow> a < fresh H3"
  proof (intro allI impI)
    fix a ob assume "cells H3 a = Some ob"
    then have "a = rs \<or> a = c \<or> a = f \<or> cells H a = Some ob" by (auto simp: c3 split: if_splits)
    with lt[OF rs] lt[of a ob] fc show "a < fresh H3" by (auto simp: H3_def)
  qed
  have g1: "get_prop H (Some root) ''repos'' = Inr (Some rs)"
    using root by (simp add: get_prop_def)
  have sk: "set_key h2 (Some rs) nm c' = Inr H3"
    if "alloc (Dict Map.empty) H = (f', h1)" "alloc (Cache f') h1 = (c', h2)" for f' h1 c' h2
  proof -
    from that have "f' = f" "c' = c"
      "h2 = \<lparr>cells = (cells H)(f \<mapsto> Dict Map.empty, c \<mapsto> Cache f), fresh = Suc c\<rparr>"
      by (auto simp: alloc_def f_def c_def)
    with rs lt[OF rs] fc show ?thesis
      by (simp add: set_key_def H3_def)
  qed
  from g1 sk st3 un3 wf3 show ?thesis
    unfolding ns'_def by blast
qed

lemma sim_emit:
  "sim sh sf \<Longrightarrow> sim (emit_h config ph rp f s t msg sh) (emit config ph rp f s t msg sf)"
  by (simp add: sim_def emit_h_def emit_def)

lemma sim_new_lastFetched:
  assumes "entry_at (heap sh) ao eo" and "ticks_h sh = ticks sf"
  shows "\<exists>x k. new_lastFetched_h clock ao file sh = (x, sh\<lparr>ticks_h := k\<rparr>) \<and>
               new_lastFetched clock eo file sf = (x, sf\<lparr>ticks := k\<rparr>)"
proof (cases "same_sha eo file \<and> (\<exists>e t. eo = Some e \<and> lastFetched e = Some t)")
  case True
  then obtain e t where "same_sha eo file" "eo = Some e" "lastFetched e = Some t" by blast
  with assms entry_at_same_sha[OF assms(1), of "file"] entry_at_lastFetched[OF assms(1)]
  have "new_lastFetched_h clock ao file sh = (t, sh\<lparr>ticks_h := ticks_h sh\<rparr>)"
    "new_lastFetched clock eo file sf = (t, sf\<lparr>ticks := ticks_h sh\<rparr>)"
    by (simp_all add: new_lastFetched_h_def new_lastFetched_def)
  then show ?thesis by blast
next
  case False
  with assms entry_at_same_sha[OF assms(1), of "file"] entry_at_lastFetched[OF assms(1)]
  have "new_lastFetched_h clock ao file sh = (clock (ticks_h sh), sh\<lparr>ticks_h := Suc (ticks_h sh)\<rparr>)"
    "new_lastFetched clock eo file sf = (clock (ticks_h sh), sf\<lparr>ticks := Suc (ticks_h sh)\<rparr>)"
    by (auto simp: new_lastFetched_h_def new_lastFetched_def Date_now_h_def Date_now_def
             split: option.splits)
  then show ?thesis by blast
qed

lemma no_bucket:
  assumes "state_at H root ns" and "repos ns nm = None"
  shows "\<exists>rs. get_prop H (Some root) ''repos'' = Inr (Some rs) \<and>
              get_prop H (Some rs) nm = Inr None"
proof -
  from assms(1) obtain rs d where
    root: "cells H root = Some (State rs (lastScrape ns))" and rs: "cells H rs = Some (Dict d)" and
    d: "\<And>n. case d n of None \<Rightarrow> repos ns n = None
             | Some c \<Rightarrow> (\<exists>b. repos ns n = Some b \<and> bucket_at H c b)"
    unfolding state_at_def by blast
  from d[of nm] assms(2) have "d nm = None" by (auto split: option.splits)
  with root rs show ?thesis by (simp add: get_prop_def)
qed

lemma file_step_sim:
  assumes s: "sim sh sf" and pv: "state_at (heap sh) p prev"
  shows "case file_step clock env config prev r owner repoName sf file of
           Normal sf' \<Rightarrow>
             (\<exists>sh'. file_step_h clock env config p r owner repoName sh file = HNormal sh' \<and> sim sh' sf')
         | Abrupt e sf' \<Rightarrow>
             (\<exists>sh'. file_step_h clock env config p r owner repoName sh file = HAbrupt e sh' \<and> sim sh' sf')"
proof -
  let ?eo = "prev_entry prev (full_name r) (TreeEntry.path file)"
  from prevEntry_h_at[OF pv] obtain ao where
    pe: "prevEntry_h (heap sh) p (full_name r) (TreeEntry.path file) = Inr ao" and
    ea: "entry_at (heap sh) ao ?eo"
    by blast
  from s have st: "state_at (heap sh) (newStateRef sh) (newState sf)" and
    un: "unshared (heap sh) (newStateRef sh)" and
    wf: "\<forall>a ob. cells (heap sh) a = Some ob \<longrightarrow> a < fresh (heap sh)" and
    tk: "ticks_h sh = ticks sf"
    by (simp_all add: sim_def)
  show ?thesis
  proof (cases "repos (newState sf) (full_name r)")
    case None
    from no_bucket[OF st None] obtain rs where
      "get_prop (heap sh) (Some (newStateRef sh)) ''repos'' = Inr (Some rs)"
      "get_prop (heap sh) (Some rs) (full_name r) = Inr None"
      by blast
    with pe None s show ?thesis
      by (simp add: file_step_h_def file_step_def get_prop_def)
  next
    case (Some bucket)
    from sim_new_lastFetched[OF ea tk, of clock "file"] obtain x k where
      nh: "new_lastFetched_h clock ao file sh = (x, sh\<lparr>ticks_h := k\<rparr>)" and
      nf: "new_lastFetched clock ?eo file sf = (x, sf\<lparr>ticks := k\<rparr>)"
      by blast
    obtain e h1 where al: "alloc (Entry (TreeEntry.sha file) (Some x)) (heap sh) = (e, h1)"
      by (cases "alloc (Entry (TreeEntry.sha file) (Some x)) (heap sh)")
    from write_entry[OF wf st un Some, of "TreeEntry.sha file" "Some x" "TreeEntry.path file"] al
    obtain rs c fs H2 where
      g1: "get_prop (heap sh) (Some (newStateRef sh)) ''repos'' = Inr (Some rs)" and
      g2: "get_prop (heap sh) (Some rs) (full_name r) = Inr (Some c)" and
      g3: "get_prop (heap sh) (Some c) ''files'' = Inr (Some fs)" and
      sk: "set_key h1 (Some fs) (TreeEntry.path file) e = Inr H2" and
      st2: "state_at H2 (newStateRef sh)
              (newState sf\<lparr>repos := (repos (newState sf))(full_name r \<mapsto>
                 bucket\<lparr>files := (files bucket)(TreeEntry.path file \<mapsto>
                   \<lparr>FileEntry.sha = TreeEntry.sha file, lastFetched = Some x\<rparr>)\<rparr>)\<rparr>)" and
      un2: "unshared H2 (newStateRef sh)" and
      wf2: "\<forall>a ob. cells H2 a = Some ob \<longrightarrow> a < fresh H2" and
      ke: "\<forall>x y z. cells (heap sh) x = Some (Entry y z) \<longrightarrow> cells H2 x = Some (Entry y z)"
      by blast
    from ea ke have "entry_at H2 ao ?eo"
      by (auto simp: entry_at_def split: option.splits)
    from entry_at_same_sha[OF this] have ss: "same_sha_h H2 ao file = same_sha ?eo file" .
    define sh2 where "sh2 = sh\<lparr>ticks_h := k, heap := H2\<rparr>"
    define sf2 where "sf2 = sf\<lparr>ticks := k, newState := newState sf\<lparr>repos := (repos (newState sf))(full_name r \<mapsto>
                 bucket\<lparr>files := (files bucket)(TreeEntry.path file \<mapsto>
                   \<lparr>FileEntry.sha = TreeEntry.sha file, lastFetched = Some x\<rparr>)\<rparr>)\<rparr>\<rparr>"
    from s st2 un2 wf2 have s2: "sim sh2 sf2"
      by (simp add: sim_def sh2_def sf2_def)
    have hstep: "file_step_h clock env config p r owner repoName sh file =
      (if same_sha ?eo file then
         (let st3 = sh2\<lparr>totalSkipped_h := totalSkipped_h sh2 + 1\<rparr> in
          HNormal (emit_h config Phase_files (Some (full_name r))
                     (Some (totalFetched_h st3)) (Some (totalSkipped_h st3))
                     (Some (totalFiles_h st3)) None st3))
       else
         (let st3 = emit_h config Phase_files (Some (full_name r))
                      (Some (totalFetched_h sh2)) (Some (totalSkipped_h sh2))
                      (Some (totalFiles_h sh2))
                      (Some (''Fetching '' @ full_name r @ ''/'' @ TreeEntry.path file)) sh2;
              st4 = st3\<lparr>requests_h := requests_h st3 @
                      [GetFileContent owner repoName (TreeEntry.path file)]\<rparr>
          in
          case getFileContent env owner repoName (TreeEntry.path file) of
            Inr c \<Rightarrow>
              HNormal (st4\<lparr>results_h := results_h st4 @
                          [\<lparr>ScrapedFile.repo = full_name r,
                            ScrapedFile.path = TreeEntry.path file,
                            content = c,
                            ScrapedFile.sha = TreeEntry.sha file\<rparr>],
                        totalFetched_h := totalFetched_h st4 + 1\<rparr>)
          | Inl err \<Rightarrow>
              HNormal (st4\<lparr>warnings_h := warnings_h st4 @
                          [''Failed to fetch '' @ full_name r @ ''/'' @
                           TreeEntry.path file @ '': '' @
                           error_message err]\<rparr>)))"
      unfolding file_step_h_def pe g1 g2 g3 nh sum.case prod.case Let_def
      using al sk ss by (simp add: sh2_def split: sum.splits)
    have fstep: "file_step clock env config prev r owner repoName sf file =
      (if same_sha ?eo file then
         (let st3 = sf2\<lparr>totalSkipped := totalSkipped sf2 + 1\<rparr> in
          Normal (emit config Phase_files (Some (full_name r)) (Some (totalFetched st3))
                    (Some (totalSkipped st3)) (Some (totalFiles st3)) None st3))
       else
         (let st3 = emit config Phase_files (Some (full_name r)) (Some (totalFetched sf2))
                      (Some (totalSkipped sf2)) (Some (totalFiles sf2))
                      (Some (''Fetching '' @ full_name r @ ''/'' @ TreeEntry.path file)) sf2;
              st4 = st3\<lparr>requests := requests st3 @ [GetFileContent owner repoName (TreeEntry.path file)]\<rparr>
          in
          case getFileContent env owner repoName (TreeEntry.path file) of
            Inr c \<Rightarrow>
              Normal (st4\<lparr>results := results st4 @
                              [\<lparr>ScrapedFile.repo = full_name r, ScrapedFile.path = TreeEntry.path file,
                                content = c, ScrapedFile.sha = TreeEntry.sha file\<rparr>],
                           totalFetched := totalFetched st4 + 1\<rparr>)
          | Inl err \<Rightarrow>
              Normal (st4\<lparr>warnings := warnings st4 @
                              [''Failed to fetch '' @ full_name r @ ''/'' @ TreeEntry.path file @
                               '': '' @ error_message err]\<rparr>)))"
      unfolding file_step_def Let_def Some option.case nf prod.case
      by (simp add: sf2_def split: sum.splits)
    show ?thesis
    proof (cases "same_sha ?eo file")
      case True
      have "sim (sh2\<lparr>totalSkipped_h := totalSkipped_h sh2 + 1\<rparr>) (sf2\<lparr>totalSkipped := totalSkipped sf2 + 1\<rparr>)"
        using s2 by (simp add: sim_def)
      from sim_emit[OF this] s2 True show ?thesis
        unfolding hstep fstep by (simp add: sim_def)
    next
      case False
      define h3 where "h3 = emit_h config Phase_files (Some (full_name r))
                      (Some (totalFetched_h sh2)) (Some (totalSkipped_h sh2))
                      (Some (totalFiles_h sh2))
                      (Some (''Fetching '' @ full_name r @ ''/'' @ TreeEntry.path file)) sh2"
      define f3 where "f3 = emit config Phase_files (Some (full_name r)) (Some (totalFetched sf2))
                      (Some (totalSkipped sf2)) (Some (totalFiles sf2))
                      (Some (''Fetching '' @ full_name r @ ''/'' @ TreeEntry.path file)) sf2"
      from s2 have eqs: "totalFetched_h sh2 = totalFetched sf2" "totalSkipped_h sh2 = totalSkipped sf2"
        "totalFiles_h sh2 = totalFiles sf2" by (simp_all add: sim_def)
      from sim_emit[OF s2] have s3: "sim h3 f3" unfolding h3_def f3_def eqs .
      show ?thesis
      proof (cases "getFileContent env owner repoName (TreeEntry.path file)")
        case (Inl err)
        with False s3 show ?thesis
          unfolding hstep fstep Let_def h3_def[symmetric] f3_def[symmetric]
          by (simp add: sim_def)
      next
        case (Inr c)
        with False s3 show ?thesis
          unfolding hstep fstep Let_def h3_def[symmetric] f3_def[symmetric]
          by (simp add: sim_def)
      qed
    qed
  qed
qed

lemma prev_still_there:
  assumes "\<forall>a ob. cells h0 a = Some ob \<longrightarrow> a < fresh h0" and "state_at h0 p prev"
    and "run_inv h0 sh"
  shows "state_at (heap sh) p prev"
proof -
  from assms(3) have "grows h0 (heap sh)" by (simp add: run_inv_def)
  from state_at_frame[OF grows_frame[OF assms(1) this] assms(2)] show ?thesis .
qed

lemma file_loop_sim:
  assumes wf0: "\<forall>a ob. cells h0 a = Some ob \<longrightarrow> a < fresh h0" and pv: "state_at h0 p prev"
    and ri: "run_inv h0 sh" and s: "sim sh sf"
  shows "case file_loop clock env config prev r owner repoName sf fs of
           Normal sf' \<Rightarrow>
             (\<exists>sh'. file_loop_h clock env config p r owner repoName sh fs = HNormal sh' \<and> sim sh' sf')
         | Abrupt e sf' \<Rightarrow>
             (\<exists>sh'. file_loop_h clock env config p r owner repoName sh fs = HAbrupt e sh' \<and> sim sh' sf')"
  using ri s
proof (induction fs arbitrary: sh sf)
  case Nil
  then show ?case by simp
next
  case (Cons f fs)
  note step = file_step_sim[OF Cons.prems(2) prev_still_there[OF wf0 pv Cons.prems(1)],
      of clock env config r owner repoName f]
  show ?case
  proof (cases "file_step clock env config prev r owner repoName sf f")
    case (Normal sf1)
    with step obtain sh1 where
      h: "file_step_h clock env config p r owner repoName sh f = HNormal sh1" and s1: "sim sh1 sf1"
      by auto
    from file_step_h_inv[OF Cons.prems(1), of clock env config p r owner repoName f] h
    have "run_inv h0 sh1" by simp
    from Cons.IH[OF this s1] Normal h show ?thesis by (auto split: completion.splits)
  next
    case (Abrupt e sf1)
    with step show ?thesis by auto
  qed
qed

lemma repo_step_sim:
  assumes wf0: "\<forall>a ob. cells h0 a = Some ob \<longrightarrow> a < fresh h0" and pv: "state_at h0 p prev"
    and ri: "run_inv h0 sh" and s: "sim sh sf"
  shows "case repo_step clock env config prev sf r of
           Normal sf' \<Rightarrow>
             (\<exists>sh'. repo_step_h clock env config p sh r = HNormal sh' \<and> sim sh' sf')
         | Abrupt e sf' \<Rightarrow>
             (\<exists>sh'. repo_step_h clock env config p sh r = HAbrupt e sh' \<and> sim sh' sf')"
proof -
  obtain owner repoName where on: "owner_and_repoName (full_name r) = (owner, repoName)"
    by (cases "owner_and_repoName (full_name r)")
  define h1 where "h1 = emit_h config Phase_tree (Some (full_name r)) (Some (totalFetched_h sh))
                  (Some (totalSkipped_h sh)) (Some (totalFiles_h sh)) None sh"
  define f1 where "f1 = emit config Phase_tree (Some (full_name r)) (Some (totalFetched sf))
                  (Some (totalSkipped sf)) (Some (totalFiles sf)) None sf"
  define h2 where "h2 = h1\<lparr>requests_h := requests_h h1 @ [GetRepoTree owner repoName (default_branch r)]\<rparr>"
  define f2 where "f2 = f1\<lparr>requests := requests f1 @ [GetRepoTree owner repoName (default_branch r)]\<rparr>"
  from s have eqs: "totalFetched_h sh = totalFetched sf" "totalSkipped_h sh = totalSkipped sf"
    "totalFiles_h sh = totalFiles sf" by (simp_all add: sim_def)
  from sim_emit[OF s] have s1: "sim h1 f1" unfolding h1_def f1_def eqs .
  then have s2: "sim h2 f2" by (simp add: sim_def h2_def f2_def)
  have hp: "heap h2 = heap sh" "newStateRef h2 = newStateRef sh"
    by (simp_all add: h2_def h1_def)
  show ?thesis
  proof (cases "getRepoTree env owner repoName (default_branch r)")
    case (Inl err)
    have "repo_step_h clock env config p sh r =
            HNormal (h2\<lparr>warnings_h := warnings_h h2 @
                          [''Skipping '' @ full_name r @ '': '' @ error_message err]\<rparr>)"
      unfolding repo_step_h_def h2_def h1_def Let_def on Inl prod.case sum.case by (rule refl)
    moreover have "repo_step clock env config prev sf r =
            Normal (f2\<lparr>warnings := warnings f2 @
                          [''Skipping '' @ full_name r @ '': '' @ error_message err]\<rparr>)"
      unfolding repo_step_def f2_def f1_def Let_def on Inl prod.case sum.case by (rule refl)
    ultimately show ?thesis using s2 by (simp add: sim_def)
  next
    case (Inr mdFiles)
    define h3 where "h3 = h2\<lparr>totalFiles_h := totalFiles_h h2 + length mdFiles\<rparr>"
    define f3 where "f3 = f2\<lparr>totalFiles := totalFiles f2 + length mdFiles\<rparr>"
    from s2 have s3: "sim h3 f3" by (simp add: sim_def h3_def f3_def)
    have hp3: "heap h3 = heap sh" "newStateRef h3 = newStateRef sh"
      by (simp_all add: h3_def hp)
    from s3 have st: "state_at (heap h3) (newStateRef h3) (newState f3)" and
      un: "unshared (heap h3) (newStateRef h3)" and
      wf: "\<forall>a ob. cells (heap h3) a = Some ob \<longrightarrow> a < fresh (heap h3)"
      by (simp_all add: sim_def)
    obtain fs ha where a1: "alloc (Dict Map.empty) (heap h3) = (fs, ha)"
      by (cases "alloc (Dict Map.empty) (heap h3)")
    obtain bucket hb where a2: "alloc (Cache fs) ha = (bucket, hb)"
      by (cases "alloc (Cache fs) ha")
    from write_bucket[OF wf st un, of "full_name r"] a1 a2 obtain rs H3 where
      g1: "get_prop (heap h3) (Some (newStateRef h3)) ''repos'' = Inr (Some rs)" and
      sk: "set_key hb (Some rs) (full_name r) bucket = Inr H3" and
      st3: "state_at H3 (newStateRef h3)
              (newState f3\<lparr>repos := (repos (newState f3))(full_name r \<mapsto> \<lparr>files = Map.empty\<rparr>)\<rparr>)" and
      un3: "unshared H3 (newStateRef h3)" and
      wf3: "\<forall>a ob. cells H3 a = Some ob \<longrightarrow> a < fresh H3"
      by blast
    define h4 where "h4 = h3\<lparr>heap := H3\<rparr>"
    define f4 where "f4 = f3\<lparr>newState := (newState f3)\<lparr>repos := (repos (newState f3))
                       (full_name r \<mapsto> \<lparr>files = Map.empty\<rparr>)\<rparr>\<rparr>"
    from s3 st3 un3 wf3 have s4: "sim h4 f4"
      by (simp add: sim_def h4_def f4_def)
    from ri have g: "grows h0 (heap sh)" and n: "fresh h0 \<le> newStateRef sh"
      by (simp_all add: run_inv_def)
    from grows_alloc[OF _ a1] g hp3 have ga: "grows h0 ha" and ffs: "fresh h0 \<le> fs"
      by simp_all
    from grows_alloc[OF ga a2] ffs have gb: "grows h0 hb" and fb: "fresh h0 \<le> bucket"
      by simp_all
    from get_prop_new[OF _ g1] g n hp3 have "fresh h0 \<le> rs" by simp
    from grows_set_key[OF gb sk this fb] have "grows h0 H3" .
    with n hp3 have ri4: "run_inv h0 h4" by (simp add: run_inv_def h4_def)
    have "repo_step_h clock env config p sh r =
            file_loop_h clock env config p r owner repoName h4 mdFiles"
      unfolding repo_step_h_def Let_def on Inr prod.case sum.case
        h1_def[symmetric] h2_def[symmetric] h3_def[symmetric] g1 a1 a2 sk h4_def
      by (rule refl)
    moreover have "repo_step clock env config prev sf r =
            file_loop clock env config prev r owner repoName f4 mdFiles"
      unfolding repo_step_def Let_def on Inr prod.case sum.case
        f1_def[symmetric] f2_def[symmetric] f3_def[symmetric] f4_def
      by (rule refl)
    ultimately show ?thesis
      using file_loop_sim[OF wf0 pv ri4 s4, of clock env config r owner repoName mdFiles]
      by (auto split: completion.splits)
  qed
qed

lemma repo_loop_sim:
  assumes wf0: "\<forall>a ob. cells h0 a = Some ob \<longrightarrow> a < fresh h0" and pv: "state_at h0 p prev"
    and ri: "run_inv h0 sh" and s: "sim sh sf"
  shows "case repo_loop clock env config prev sf rs of
           Normal sf' \<Rightarrow>
             (\<exists>sh'. repo_loop_h clock env config p sh rs = HNormal sh' \<and> sim sh' sf')
         | Abrupt e sf' \<Rightarrow>
             (\<exists>sh'. repo_loop_h clock env config p sh rs = HAbrupt e sh' \<and> sim sh' sf')"
  using ri s
proof (induction rs arbitrary: sh sf)
  case Nil
  then show ?case by simp
next
  case (Cons r rs)
  note step = repo_step_sim[OF wf0 pv Cons.prems, of clock env config r]
  show ?case
  proof (cases "repo_step clock env config prev sf r")
    case (Normal sf1)
    with step obtain sh1 where
      h: "repo_step_h clock env config p sh r = HNormal sh1" and s1: "sim sh1 sf1"
      by auto
    from repo_step_h_inv[OF Cons.prems(1), of clock env config p r] h
    have "run_inv h0 sh1" by simp
    from Cons.IH[OF this s1] Normal h show ?thesis by (auto split: completion.splits)
  next
    case (Abrupt e sf1)
    with step show ?thesis by auto
  qed
qed

lemma start_sim:
  assumes "\<forall>a ob. cells h a = Some ob \<longrightarrow> a < fresh h"
  shows "sim (start_h clock config h) (start clock config)"
proof -
  define rs where "rs = fresh h"
  define root where "root = Suc (fresh h)"
  define H where "H = \<lparr>cells = (cells h)(rs \<mapsto> Dict Map.empty, root \<mapsto> State rs (Some (clock 0))),
                        fresh = Suc root\<rparr>"
  define sh0 where "sh0 = \<lparr>heap = H, newStateRef = root,
                 results_h = [], totalFetched_h = 0, totalSkipped_h = 0, totalFiles_h = 0,
                 events_h = [], warnings_h = [], requests_h = [], ticks_h = 1\<rparr>"
  define sf0 where "sf0 = \<lparr>newState = \<lparr>repos = Map.empty, lastScrape = Some (clock 0)\<rparr>,
                 results = [], totalFetched = 0, totalSkipped = 0, totalFiles = 0,
                 events = [], warnings = [], requests = [], ticks = 1\<rparr>"
  have k: "cells H root = Some (State rs (Some (clock 0)))" "cells H rs = Some (Dict Map.empty)"
    by (simp_all add: H_def rs_def root_def)
  have "state_at H root \<lparr>repos = Map.empty, lastScrape = Some (clock 0)\<rparr>"
    unfolding state_at_def using k by simp
  moreover have "unshared H root"
    unfolding unshared_def using k by simp
  moreover have "\<forall>a ob. cells H a = Some ob \<longrightarrow> a < fresh H"
  proof (intro allI impI)
    fix a ob assume "cells H a = Some ob"
    then have "a = rs \<or> a = root \<or> cells h a = Some ob"
      by (auto simp: H_def split: if_splits)
    with assms show "a < fresh H" by (auto simp: H_def rs_def root_def less_Suc_eq)
  qed
  ultimately have s0: "sim sh0 sf0" by (simp add: sim_def sh0_def sf0_def)
  have "start_h clock config h =
          (emit_h config Phase_repos None None None None
             (Some (''Listing repositories for '' @ org config @ [CHR 0xE2, CHR 0x80, CHR 0xA6])) sh0)
          \<lparr>requests_h := requests_h (emit_h config Phase_repos None None None None
             (Some (''Listing repositories for '' @ org config @ [CHR 0xE2, CHR 0x80, CHR 0xA6])) sh0) @
             [ListOrgRepos (org config)]\<rparr>"
    by (simp add: start_h_def alloc_def Let_def sh0_def H_def rs_def root_def)
  moreover have "start clock config =
          (emit config Phase_repos None None None None
             (Some (''Listing repositories for '' @ org config @ [CHR 0xE2, CHR 0x80, CHR 0xA6])) sf0)
          \<lparr>requests := requests (emit config Phase_repos None None None None
             (Some (''Listing repositories for '' @ org config @ [CHR 0xE2, CHR 0x80, CHR 0xA6])) sf0) @
             [ListOrgRepos (org config)]\<rparr>"
    by (simp add: start_def Let_def sf0_def)
  ultimately show ?thesis
    using sim_emit[OF s0, of config Phase_repos None None None None
        "Some (''Listing repositories for '' @ org config @ [CHR 0xE2, CHR 0x80, CHR 0xA6])"]
    by (simp add: sim_def)
qed

lemma default_prevState_h_at:
  assumes wf: "\<forall>a ob. cells h a = Some ob \<longrightarrow> a < fresh h"
    and arg: "case parg of None \<Rightarrow> farg = None | Some p \<Rightarrow> (\<exists>s. farg = Some s \<and> state_at h p s)"
    and d: "default_prevState_h parg h = (p, h0)"
  shows "state_at h0 p (default_prevState farg)"
    and "\<forall>a ob. cells h0 a = Some ob \<longrightarrow> a < fresh h0"
proof -
  have "state_at h0 p (default_prevState farg) \<and> (\<forall>a ob. cells h0 a = Some ob \<longrightarrow> a < fresh h0)"
  proof (cases parg)
    case (Some a)
    with arg d wf show ?thesis
      by (auto simp: default_prevState_h_def default_prevState_def)
  next
    case None
    with arg have f: "farg = None" by simp
    define rs where "rs = fresh h"
    from d None have p: "p = Suc rs" and
      h0: "h0 = \<lparr>cells = (cells h)(rs \<mapsto> Dict Map.empty, Suc rs \<mapsto> State rs None), fresh = Suc (Suc rs)\<rparr>"
      by (auto simp: default_prevState_h_def alloc_def Let_def rs_def)
    have k: "cells h0 p = Some (State rs None)" "cells h0 rs = Some (Dict Map.empty)"
      by (simp_all add: h0 p)
    have "state_at h0 p \<lparr>repos = Map.empty, lastScrape = None\<rparr>"
      unfolding state_at_def using k by simp
    moreover have "\<forall>a ob. cells h0 a = Some ob \<longrightarrow> a < fresh h0"
    proof (intro allI impI)
      fix a ob assume "cells h0 a = Some ob"
      then have "a = rs \<or> a = Suc rs \<or> cells h a = Some ob"
        by (auto simp: h0 split: if_splits)
      with wf show "a < fresh h0" by (auto simp: h0 rs_def less_Suc_eq)
    qed
    ultimately show ?thesis using f by (simp add: default_prevState_def)
  qed
  then show "state_at h0 p (default_prevState farg)"
    and "\<forall>a ob. cells h0 a = Some ob \<longrightarrow> a < fresh h0"
    by blast+
qed

lemma scrapeOrg_h_sim:
  assumes wf: "\<forall>a ob. cells h a = Some ob \<longrightarrow> a < fresh h"
    and arg: "case parg of None \<Rightarrow> farg = None | Some p \<Rightarrow> (\<exists>s. farg = Some s \<and> state_at h p s)"
  shows "sim (snd (scrapeOrg_h clock env config parg h)) (snd (scrapeOrg clock env config farg)) \<and>
         (case fst (scrapeOrg clock env config farg) of
            Inl e \<Rightarrow> fst (scrapeOrg_h clock env config parg h) = Inl e
          | Inr (fs, ns) \<Rightarrow>
              fst (scrapeOrg_h clock env config parg h) =
                Inr (fs, newStateRef (snd (scrapeOrg_h clock env config parg h))) \<and>
              ns = newState (snd (scrapeOrg clock env config farg)))"
proof -
  obtain p h0 where d: "default_prevState_h parg h = (p, h0)"
    by (cases "default_prevState_h parg h")
  note pv = default_prevState_h_at(1)[OF wf arg d]
  note wf0 = default_prevState_h_at(2)[OF wf arg d]
  from start_h_inv[OF grows_refl[OF wf0]] have ri: "run_inv h0 (start_h clock config h0)" .
  note s = start_sim[OF wf0, of clock config]
  show ?thesis
  proof (cases "listOrgRepos env (org config)")
    case (Inl err)
    with d s show ?thesis by (simp add: scrapeOrg_h_def scrapeOrg_def)
  next
    case (Inr allRepos)
    note loop = repo_loop_sim[OF wf0 pv ri s, of clock env config "retained config allRepos"]
    show ?thesis
    proof (cases "repo_loop clock env config (default_prevState farg) (start clock config)
                    (retained config allRepos)")
      case (Abrupt e sf1)
      with loop obtain sh1 where
        "repo_loop_h clock env config p (start_h clock config h0) (retained config allRepos) =
           HAbrupt e sh1" "sim sh1 sf1"
        by auto
      with d Inr Abrupt show ?thesis by (simp add: scrapeOrg_h_def scrapeOrg_def)
    next
      case (Normal sf1)
      with loop obtain sh1 where
        h: "repo_loop_h clock env config p (start_h clock config h0) (retained config allRepos) =
           HNormal sh1" and s1: "sim sh1 sf1"
        by auto
      from s1 have eqs: "totalFetched_h sh1 = totalFetched sf1" "totalSkipped_h sh1 = totalSkipped sf1"
        "totalFiles_h sh1 = totalFiles sf1" by (simp_all add: sim_def)
      from sim_emit[OF s1, of config Phase_done None "Some (totalFetched sf1)"
          "Some (totalSkipped sf1)" "Some (totalFiles sf1)" None]
      have s2: "sim (emit_h config Phase_done None (Some (totalFetched_h sh1))
                      (Some (totalSkipped_h sh1)) (Some (totalFiles_h sh1)) None sh1)
                    (emit config Phase_done None (Some (totalFetched sf1))
                      (Some (totalSkipped sf1)) (Some (totalFiles sf1)) None sf1)"
        unfolding eqs .
      then have "results_h (emit_h config Phase_done None (Some (totalFetched_h sh1))
                      (Some (totalSkipped_h sh1)) (Some (totalFiles_h sh1)) None sh1) =
                 results sf1"
        by (simp add: sim_def)
      with d Inr Normal h s2 show ?thesis
        by (simp add: scrapeOrg_h_def scrapeOrg_def Let_def)
    qed
  qed
qed

text \<open>
  The run on the object store and the run above give the same outcome: the same
  rejection, or the same files and a reference to the store the run above returns; they
  emit the same events, make the same requests and log the same warnings.
\<close>

lemma scrapeOrg_h_refines:
  assumes "\<forall>a ob. cells h a = Some ob \<longrightarrow> a < fresh h"
    and "case parg of None \<Rightarrow> farg = None | Some p \<Rightarrow> (\<exists>s. farg = Some s \<and> state_at h p s)"
  shows "case fst (scrapeOrg clock env config farg) of
           Inl e \<Rightarrow> fst (scrapeOrg_h clock env config parg h) = Inl e
         | Inr (fs, ns) \<Rightarrow>
             (\<exists>root. fst (scrapeOrg_h clock env config parg h) = Inr (fs, root) \<and>
                read_state (heap (snd (scrapeOrg_h clock env config parg h))) root = Some ns)"
    and "events_h (snd (scrapeOrg_h clock env config parg h)) =
         events (snd (scrapeOrg clock env config farg))"
    and "requests_h (snd (scrapeOrg_h clock env config parg h)) =
         requests (snd (scrapeOrg clock env config farg))"
    and "warnings_h (snd (scrapeOrg_h clock env config parg h)) =
         warnings (snd (scrapeOrg clock env config farg))"
proof -
  note s = scrapeOrg_h_sim[OF assms, of clock env config]
  then have sm: "sim (snd (scrapeOrg_h clock env config parg h)) (snd (scrapeOrg clock env config farg))"
    by blast
  then show "events_h (snd (scrapeOrg_h clock env config parg h)) =
         events (snd (scrapeOrg clock env config farg))"
    and "requests_h (snd (scrapeOrg_h clock env config parg h)) =
         requests (snd (scrapeOrg clock env config farg))"
    and "warnings_h (snd (scrapeOrg_h clock env config parg h)) =
         warnings (snd (scrapeOrg clock env config farg))"
    by (simp_all add: sim_def)
  from sm have "read_state (heap (snd (scrapeOrg_h clock env config parg h)))
                  (newStateRef (snd (scrapeOrg_h clock env config parg h))) =
                Some (newState (snd (scrapeOrg clock env config farg)))"
    by (simp add: sim_def state_at_read)
  with s show "case fst (scrapeOrg clock env config farg) of
           Inl e \<Rightarrow> fst (scrapeOrg_h clock env config parg h) = Inl e
         | Inr (fs, ns) \<Rightarrow>
             (\<exists>root. fst (scrapeOrg_h clock env config parg h) = Inr (fs, root) \<and>
                read_state (heap (snd (scrapeOrg_h clock env config parg h))) root = Some ns)"
    by (auto split: sum.splits)
qed

text \<open>The example store is such a store.\<close>

lemma ex_heap_state_at: "state_at ex_heap 8 ex_prevState"
proof -
  have e: "entry_at ex_heap
             ([''README.md'' \<mapsto> 0, ''docs/guide.md'' \<mapsto> 1, ''docs/removed.md'' \<mapsto> 2] q)
             (files (the (repos ex_prevState ''test-org/repo-a'')) q)" for q
    by (simp add: entry_at_def ex_heap_def ex_prevState_def)
  have a: "bucket_at ex_heap 4 (the (repos ex_prevState ''test-org/repo-a''))"
    unfolding bucket_at_def
    by (rule exI[of _ 3], rule exI[of _ "[''README.md'' \<mapsto> 0, ''docs/guide.md'' \<mapsto> 1, ''docs/removed.md'' \<mapsto> 2]"])
       (use e in \<open>simp add: ex_heap_def\<close>)
  have b: "bucket_at ex_heap 6 (the (repos ex_prevState ''test-org/repo-b''))"
    unfolding bucket_at_def
    by (rule exI[of _ 5], rule exI[of _ Map.empty])
       (simp add: ex_heap_def ex_prevState_def entry_at_def)
  show ?thesis
    unfolding state_at_def
    by (rule exI[of _ 7], rule exI[of _ "[''test-org/repo-a'' \<mapsto> 4, ''test-org/repo-b'' \<mapsto> 6]"])
       (use a b in \<open>simp add: ex_heap_def ex_prevState_def\<close>)
qed


section \<open>The claims\<close>

text \<open>
  C10. The progress event type declares the phase \<open>error\<close>, but no run emits it: for
  every clock, remote, configuration and previous store, whether the run returns or is
  rejected, every event handed to the callback has phase \<open>repos\<close>, \<open>tree\<close>, \<open>files\<close> or
  \<open>done\<close>.
\<close>

theorem C10_no_error_phase:
  "list_all (\<lambda>e. phase e = Phase_repos \<or> phase e = Phase_tree \<or> phase e = Phase_files \<or>
                  phase e = Phase_done)
     (events (snd (scrapeOrg clock env config arg))) \<and>
   Phase_error \<notin> set (map phase (events (snd (scrapeOrg clock env config arg))))"
proof -
  have "list_all (\<lambda>e. phase e = Phase_repos \<or> phase e = Phase_tree \<or> phase e = Phase_files \<or>
                  phase e = Phase_done)
     (events (snd (scrapeOrg clock env config arg)))"
  proof (cases "listOrgRepos env (org config)")
    case (Inl err)
    then show ?thesis by (simp add: scrapeOrg_rejected start_events)
  next
    case (Inr allRepos)
    from resolved_events[OF Inr, where clock=clock and arg=arg] show ?thesis
      by (auto simp: start_events list_all_iff)
  qed
  then show ?thesis by (auto simp: list_all_iff)
qed

theorem C10_witness:
  "map phase (events (snd (scrapeOrg ex_clock ex_remote_content_fails ex_config None))) =
     [Phase_repos, Phase_tree, Phase_files, Phase_files, Phase_tree, Phase_files, Phase_done] \<and>
   map phase (events (snd (scrapeOrg ex_clock ex_remote_unreachable ex_config None))) = [Phase_repos] \<and>
   Phase_error \<notin> set (map phase (events (snd (scrapeOrg ex_clock ex_remote_content_fails ex_config None))))"
  using C10_no_error_phase[of ex_clock ex_remote_content_fails ex_config None]
  by (simp add: run_defs ex_defs)

text \<open>
  C8. As stated the claim fails: a run whose repository listing fails is rejected after
  the \<open>repos\<close> event, so its final event is not \<open>done\<close> (see the counterexample). What
  holds: in every run, in the sequence of events handed to the callback,
  \<open>fetched + skipped\<close> never decreases and \<open>total\<close> never decreases; and when the
  repository listing succeeds (the run returns) and a callback is supplied, the final
  event has phase \<open>done\<close> and carries the final counts: \<open>fetched\<close> is the number of
  returned files, \<open>skipped\<close> the number of tree entries with an unchanged fingerprint
  and \<open>total\<close> the number of tree entries of the repositories whose tree was listed.
\<close>

theorem C8_progress_monotone_and_done:
  "sorted_wrt (\<lambda>a b. fetched a + skipped a \<le> fetched b + skipped b)
     (events (snd (scrapeOrg clock env config arg))) \<and>
   sorted_wrt (\<lambda>a b. total a \<le> total b) (events (snd (scrapeOrg clock env config arg))) \<and>
   (listOrgRepos env (org config) = Inr allRepos \<longrightarrow> onProgress config \<longrightarrow>
      (\<exists>fs ns. fst (scrapeOrg clock env config arg) = Inr (fs, ns) \<and>
         events (snd (scrapeOrg clock env config arg)) \<noteq> [] \<and>
         last (events (snd (scrapeOrg clock env config arg))) =
           \<lparr>phase = Phase_done, repo = None, fetched = length fs,
            skipped = sum_list (map (repo_skipped env (default_prevState arg)) (retained config allRepos)),
            total = sum_list (map (repo_total env) (retained config allRepos)),
            message = None\<rparr>))"
proof -
  have inv: "counts_inv (snd (scrapeOrg clock env config arg))" by (rule run_counts)
  then have s: "sorted_wrt (\<lambda>a b. fetched a + skipped a \<le> fetched b + skipped b \<and> total a \<le> total b)
     (events (snd (scrapeOrg clock env config arg)))"
    by (simp add: counts_inv_def)
  have m1: "sorted_wrt (\<lambda>a b. fetched a + skipped a \<le> fetched b + skipped b)
     (events (snd (scrapeOrg clock env config arg)))"
    by (rule sorted_wrt_mono_rel[OF _ s]) simp
  have m2: "sorted_wrt (\<lambda>a b. total a \<le> total b) (events (snd (scrapeOrg clock env config arg)))"
    by (rule sorted_wrt_mono_rel[OF _ s]) simp
  have "\<exists>fs ns. fst (scrapeOrg clock env config arg) = Inr (fs, ns) \<and>
         events (snd (scrapeOrg clock env config arg)) \<noteq> [] \<and>
         last (events (snd (scrapeOrg clock env config arg))) =
           \<lparr>phase = Phase_done, repo = None, fetched = length fs,
            skipped = sum_list (map (repo_skipped env (default_prevState arg)) (retained config allRepos)),
            total = sum_list (map (repo_total env) (retained config allRepos)),
            message = None\<rparr>"
    if l: "listOrgRepos env (org config) = Inr allRepos" and p: "onProgress config"
  proof -
    from resolved_events[OF l, where clock=clock and arg=arg] p obtain es where
      "events (snd (scrapeOrg clock env config arg)) =
         events (start clock config) @ es @
           [\<lparr>phase = Phase_done, repo = None,
             fetched = totalFetched (snd (scrapeOrg clock env config arg)),
             skipped = totalSkipped (snd (scrapeOrg clock env config arg)),
             total = totalFiles (snd (scrapeOrg clock env config arg)), message = None\<rparr>]"
      by auto
    then have "events (snd (scrapeOrg clock env config arg)) \<noteq> [] \<and>
      last (events (snd (scrapeOrg clock env config arg))) =
        \<lparr>phase = Phase_done, repo = None,
             fetched = totalFetched (snd (scrapeOrg clock env config arg)),
             skipped = totalSkipped (snd (scrapeOrg clock env config arg)),
             total = totalFiles (snd (scrapeOrg clock env config arg)), message = None\<rparr>"
      by simp
    with resolved_files[OF l, where clock=clock and arg=arg]
      resolved_run(3)[OF l, where clock=clock and arg=arg]
      resolved_totals[OF l, where clock=clock and arg=arg]
    show ?thesis by simp
  qed
  with m1 m2 show ?thesis by blast
qed

theorem C8_witness:
  "map (\<lambda>e. (phase e, fetched e + skipped e, total e))
     (events (snd (scrapeOrg ex_clock ex_remote ex_config (Some ex_prevState)))) =
     [(Phase_repos, 0, 0), (Phase_tree, 0, 0), (Phase_files, 1, 2), (Phase_files, 1, 2),
      (Phase_tree, 2, 2), (Phase_files, 2, 3), (Phase_done, 3, 3)] \<and>
   sorted_wrt (\<lambda>a b. fetched a + skipped a \<le> fetched b + skipped b)
     (events (snd (scrapeOrg ex_clock ex_remote ex_config (Some ex_prevState)))) \<and>
   sorted_wrt (\<lambda>a b. total a \<le> total b)
     (events (snd (scrapeOrg ex_clock ex_remote ex_config (Some ex_prevState)))) \<and>
   (\<exists>fs ns. fst (scrapeOrg ex_clock ex_remote ex_config (Some ex_prevState)) = Inr (fs, ns) \<and>
      last (events (snd (scrapeOrg ex_clock ex_remote ex_config (Some ex_prevState)))) =
        \<lparr>phase = Phase_done, repo = None, fetched = length fs,
         skipped = sum_list (map (repo_skipped ex_remote (default_prevState (Some ex_prevState)))
                               (retained ex_config [ex_repo_a, ex_repo_b])),
         total = sum_list (map (repo_total ex_remote) (retained ex_config [ex_repo_a, ex_repo_b])),
         message = None\<rparr>)"
proof -
  have l: "listOrgRepos ex_remote (org ex_config) = Inr [ex_repo_a, ex_repo_b]"
    by (simp add: ex_remote_def)
  have p: "onProgress ex_config"
    by (simp add: ex_config_def)
  have ev: "map (\<lambda>e. (phase e, fetched e + skipped e, total e))
     (events (snd (scrapeOrg ex_clock ex_remote ex_config (Some ex_prevState)))) =
     [(Phase_repos, 0, 0), (Phase_tree, 0, 0), (Phase_files, 1, 2), (Phase_files, 1, 2),
      (Phase_tree, 2, 2), (Phase_files, 2, 3), (Phase_done, 3, 3)]"
    by (simp add: run_defs ex_defs)
  from C8_progress_monotone_and_done[of ex_clock ex_remote ex_config "Some ex_prevState"
          "[ex_repo_a, ex_repo_b]"] l p ev
  show ?thesis by blast
qed

theorem C8_counterexample:
  "fst (scrapeOrg ex_clock ex_remote_unreachable ex_config None) = Inl (Error ''Not Found'') \<and>
   events (snd (scrapeOrg ex_clock ex_remote_unreachable ex_config None)) \<noteq> [] \<and>
   phase (last (events (snd (scrapeOrg ex_clock ex_remote_unreachable ex_config None)))) = Phase_repos \<and>
   phase (last (events (snd (scrapeOrg ex_clock ex_remote_unreachable ex_config None)))) \<noteq> Phase_done"
  by (simp add: run_defs ex_defs)

text \<open>
  C7. With a repository-name filter \<open>re\<close>, only repositories whose short name matches
  are processed. When the listing succeeds, the run returns, and
  \<^item> every returned file names (by its \<open>repo\<close> field, a full name) a listed repository
    whose short name matches;
  \<^item> every \<open>tree\<close> or \<open>files\<close> event names a listed repository whose short name
    matches, and the \<open>repos\<close> and \<open>done\<close> events name none;
  \<^item> every request after the listing is a tree or content request for a listed
    repository whose short name matches;
  \<^item> hence a full name \<open>n\<close> none of whose listed repositories matches is named by no
    returned file and by no event.
\<close>

theorem C7_filter:
  assumes "repoFilter config = Some re"
    and "listOrgRepos env (org config) = Inr allRepos"
  shows "\<exists>fs ns. fst (scrapeOrg clock env config arg) = Inr (fs, ns) \<and>
     (\<forall>f\<in>set fs. \<exists>r\<in>set allRepos. re (name r) \<and> ScrapedFile.repo f = full_name r) \<and>
     (\<forall>e\<in>set (events (snd (scrapeOrg clock env config arg))).
        (if phase e = Phase_tree \<or> phase e = Phase_files
         then \<exists>r\<in>set allRepos. re (name r) \<and> ScrapeProgress.repo e = Some (full_name r)
         else ScrapeProgress.repo e = None)) \<and>
     (\<forall>q\<in>set (requests (snd (scrapeOrg clock env config arg))).
        q = ListOrgRepos (org config) \<or>
        (\<exists>r\<in>set allRepos. \<exists>owner repoName. re (name r) \<and>
           owner_and_repoName (full_name r) = (owner, repoName) \<and>
           (q = GetRepoTree owner repoName (default_branch r) \<or>
            (\<exists>p. q = GetFileContent owner repoName p)))) \<and>
     (\<forall>n. (\<forall>r\<in>set allRepos. full_name r = n \<longrightarrow> \<not> re (name r)) \<longrightarrow>
        (\<forall>f\<in>set fs. ScrapedFile.repo f \<noteq> n) \<and>
        (\<forall>e\<in>set (events (snd (scrapeOrg clock env config arg))). ScrapeProgress.repo e \<noteq> Some n))"
proof -
  let ?run = "snd (scrapeOrg clock env config arg)"
  let ?rs = "retained config allRepos"
  let ?fs = "concat (map (repo_records env (default_prevState arg)) ?rs)"
  have rs: "?rs = filter (\<lambda>r. re (name r)) allRepos"
    using assms(1) by (simp add: retained_def)
  have res: "fst (scrapeOrg clock env config arg) = Inr (?fs, newState ?run)"
    by (rule resolved_files[OF assms(2)])
  have files: "\<exists>r\<in>set allRepos. re (name r) \<and> ScrapedFile.repo f = full_name r"
    if "f \<in> set ?fs" for f
  proof -
    from that obtain r where "r \<in> set ?rs" "f \<in> set (repo_records env (default_prevState arg) r)"
      by auto
    then show ?thesis
      unfolding rs in_repo_records by auto
  qed
  from resolved_events[OF assms(2), where clock=clock and arg=arg] obtain es where
    ev: "events ?run = events (start clock config) @ es @
           (if onProgress config
            then [\<lparr>phase = Phase_done, repo = None, fetched = totalFetched ?run,
                   skipped = totalSkipped ?run, total = totalFiles ?run, message = None\<rparr>]
            else [])" and
    es: "list_all (\<lambda>e. (phase e = Phase_tree \<or> phase e = Phase_files) \<and>
                       ScrapeProgress.repo e \<in> (\<lambda>r. Some (full_name r)) ` set ?rs) es"
    by blast
  have events: "if phase e = Phase_tree \<or> phase e = Phase_files
         then \<exists>r\<in>set allRepos. re (name r) \<and> ScrapeProgress.repo e = Some (full_name r)
         else ScrapeProgress.repo e = None"
    if "e \<in> set (events ?run)" for e
  proof -
    from that ev consider "e \<in> set (events (start clock config))" | "e \<in> set es"
      | "e = \<lparr>phase = Phase_done, repo = None, fetched = totalFetched ?run,
                   skipped = totalSkipped ?run, total = totalFiles ?run, message = None\<rparr>"
      by (auto split: if_splits)
    then show ?thesis
    proof cases
      case 1
      then show ?thesis by (auto simp: start_events split: if_splits)
    next
      case 2
      with es show ?thesis unfolding rs by (auto simp: list_all_iff)
    next
      case 3
      then show ?thesis by simp
    qed
  qed
  have reqs: "q = ListOrgRepos (org config) \<or>
        (\<exists>r\<in>set allRepos. \<exists>owner repoName. re (name r) \<and>
           owner_and_repoName (full_name r) = (owner, repoName) \<and>
           (q = GetRepoTree owner repoName (default_branch r) \<or>
            (\<exists>p. q = GetFileContent owner repoName p)))"
    if "q \<in> set (requests ?run)" for q
  proof -
    from that resolved_run(2)[OF assms(2), where clock=clock and arg=arg]
    consider "q = ListOrgRepos (org config)"
      | r where "r \<in> set ?rs" "q \<in> set (repo_requests env (default_prevState arg) r)"
      by auto
    then show ?thesis
    proof cases
      case 1
      then show ?thesis by simp
    next
      case 2
      from in_repo_requests[OF 2(2)] 2(1) show ?thesis unfolding rs by auto
    qed
  qed
  have neg: "(\<forall>f\<in>set ?fs. ScrapedFile.repo f \<noteq> n) \<and>
        (\<forall>e\<in>set (events ?run). ScrapeProgress.repo e \<noteq> Some n)"
    if no: "\<forall>r\<in>set allRepos. full_name r = n \<longrightarrow> \<not> re (name r)" for n
  proof (intro conjI ballI)
    fix f assume "f \<in> set ?fs"
    from files[OF this] no show "ScrapedFile.repo f \<noteq> n" by auto
  next
    fix e assume "e \<in> set (events ?run)"
    from events[OF this] no show "ScrapeProgress.repo e \<noteq> Some n"
      by (auto split: if_splits)
  qed
  from res files events reqs neg show ?thesis
    by (intro exI[of _ ?fs] exI[of _ "newState ?run"]) blast
qed

theorem C7_witness:
  "(\<exists>fs ns. fst (scrapeOrg ex_clock ex_remote ex_config_filtered None) = Inr (fs, ns) \<and>
      map ScrapedFile.repo fs = [''test-org/repo-a'', ''test-org/repo-a''] \<and>
      (\<forall>f\<in>set fs. ScrapedFile.repo f \<noteq> ''test-org/repo-b'')) \<and>
   map ScrapeProgress.repo (events (snd (scrapeOrg ex_clock ex_remote ex_config_filtered None))) =
     [None, Some ''test-org/repo-a'', Some ''test-org/repo-a'', Some ''test-org/repo-a'', None] \<and>
   requests (snd (scrapeOrg ex_clock ex_remote ex_config_filtered None)) =
     [ListOrgRepos ''test-org'',
      GetRepoTree (Some ''test-org'') (Some ''repo-a'') ''main'',
      GetFileContent (Some ''test-org'') (Some ''repo-a'') ''README.md'',
      GetFileContent (Some ''test-org'') (Some ''repo-a'') ''docs/guide.md'']"
proof -
  have f: "repoFilter ex_config_filtered = Some (\<lambda>s. s = ''repo-a'')"
    by (simp add: ex_config_filtered_def)
  have l: "listOrgRepos ex_remote (org ex_config_filtered) = Inr [ex_repo_a, ex_repo_b]"
    by (simp add: ex_remote_def)
  have no: "\<forall>r\<in>set [ex_repo_a, ex_repo_b]. full_name r = ''test-org/repo-b'' \<longrightarrow> \<not> name r = ''repo-a''"
    by (simp add: ex_defs)
  have run: "map ScrapedFile.repo (results (snd (scrapeOrg ex_clock ex_remote ex_config_filtered None))) =
       [''test-org/repo-a'', ''test-org/repo-a'']"
    "fst (scrapeOrg ex_clock ex_remote ex_config_filtered None) =
       Inr (results (snd (scrapeOrg ex_clock ex_remote ex_config_filtered None)),
            newState (snd (scrapeOrg ex_clock ex_remote ex_config_filtered None)))"
    "map ScrapeProgress.repo (events (snd (scrapeOrg ex_clock ex_remote ex_config_filtered None))) =
     [None, Some ''test-org/repo-a'', Some ''test-org/repo-a'', Some ''test-org/repo-a'', None]"
    "requests (snd (scrapeOrg ex_clock ex_remote ex_config_filtered None)) =
     [ListOrgRepos ''test-org'',
      GetRepoTree (Some ''test-org'') (Some ''repo-a'') ''main'',
      GetFileContent (Some ''test-org'') (Some ''repo-a'') ''README.md'',
      GetFileContent (Some ''test-org'') (Some ''repo-a'') ''docs/guide.md'']"
    by (simp_all add: run_defs ex_defs)
  from C7_filter[OF f l, of ex_clock None] obtain fs ns where
    r: "fst (scrapeOrg ex_clock ex_remote ex_config_filtered None) = Inr (fs, ns)" and
    n: "\<forall>n. (\<forall>r\<in>set [ex_repo_a, ex_repo_b]. full_name r = n \<longrightarrow> \<not> name r = ''repo-a'') \<longrightarrow>
        (\<forall>f\<in>set fs. ScrapedFile.repo f \<noteq> n) \<and>
        (\<forall>e\<in>set (events (snd (scrapeOrg ex_clock ex_remote ex_config_filtered None))).
           ScrapeProgress.repo e \<noteq> Some n)"
    by blast
  from n no have "\<forall>f\<in>set fs. ScrapedFile.repo f \<noteq> ''test-org/repo-b''" by blast
  moreover from r run(2) have "fs = results (snd (scrapeOrg ex_clock ex_remote ex_config_filtered None))"
    by simp
  ultimately show ?thesis using r run(1,3,4) by auto
qed

text \<open>
  C1. As stated the claim fails: the content of a new or changed file is requested, but
  when that request fails no record is appended (see the counterexample). What holds,
  for every run whose repository listing succeeds: the run returns, and with \<open>P\<close> the
  previous bucket of a repository and \<open>T\<close> its tree,
  \<^item> the requests of the run are the listing, then for each retained repository in
    order its tree request followed, if the tree was listed, by one content request for
    each entry of \<open>to_fetch P T\<close> in order: content is requested exactly for the entries
    whose path is absent from \<open>P\<close> or whose fingerprint differs;
  \<^item> the returned files are, in the same order, one record for each of those entries
    whose content request succeeded;
  \<^item> so for an entry \<open>t\<close> of the tree of a retained repository, the record of \<open>t\<close> with
    content \<open>c\<close> is in the returned list if and only if the path of \<open>t\<close> is absent from
    \<open>P\<close> or the fingerprint differs, and the content request returned \<open>c\<close>; an entry with
    an unchanged fingerprint has no record in the list.
\<close>

theorem C1_fetch_iff_changed:
  assumes "listOrgRepos env (org config) = Inr allRepos"
  shows "\<exists>fs ns. fst (scrapeOrg clock env config arg) = Inr (fs, ns) \<and>
     requests (snd (scrapeOrg clock env config arg)) =
       ListOrgRepos (org config) #
       concat (map (\<lambda>r. case owner_and_repoName (full_name r) of
                          (owner, repoName) \<Rightarrow>
                            GetRepoTree owner repoName (default_branch r) #
                            (case tree_of env r of
                               Inl err \<Rightarrow> []
                             | Inr T \<Rightarrow>
                                 map (\<lambda>t. GetFileContent owner repoName (TreeEntry.path t))
                                   (to_fetch (prev_bucket (default_prevState arg) (full_name r)) T)))
                 (retained config allRepos)) \<and>
     fs = concat (map (\<lambda>r. case tree_of env r of
                          Inl err \<Rightarrow> []
                        | Inr T \<Rightarrow>
                            concat (map (\<lambda>t. case content_of env r t of
                                               Inl err \<Rightarrow> []
                                             | Inr c \<Rightarrow> [\<lparr>ScrapedFile.repo = full_name r,
                                                          ScrapedFile.path = TreeEntry.path t,
                                                          content = c,
                                                          ScrapedFile.sha = TreeEntry.sha t\<rparr>])
                              (to_fetch (prev_bucket (default_prevState arg) (full_name r)) T)))
                   (retained config allRepos)) \<and>
     (\<forall>r\<in>set (retained config allRepos). \<forall>T. tree_of env r = Inr T \<longrightarrow>
        (\<forall>t\<in>set T.
           (\<forall>c. \<lparr>ScrapedFile.repo = full_name r, ScrapedFile.path = TreeEntry.path t, content = c,
                 ScrapedFile.sha = TreeEntry.sha t\<rparr> \<in> set fs \<longleftrightarrow>
                (prev_bucket (default_prevState arg) (full_name r) (TreeEntry.path t) = None \<or>
                 (\<exists>e. prev_bucket (default_prevState arg) (full_name r) (TreeEntry.path t) = Some e \<and>
                      FileEntry.sha e \<noteq> TreeEntry.sha t)) \<and>
                content_of env r t = Inr c) \<and>
           ((\<exists>e. prev_bucket (default_prevState arg) (full_name r) (TreeEntry.path t) = Some e \<and>
                 FileEntry.sha e = TreeEntry.sha t) \<longrightarrow>
            (\<forall>f\<in>set fs. \<not> (ScrapedFile.repo f = full_name r \<and>
                             ScrapedFile.path f = TreeEntry.path t \<and>
                             ScrapedFile.sha f = TreeEntry.sha t)))))"
proof -
  let ?prev = "default_prevState arg"
  let ?run = "snd (scrapeOrg clock env config arg)"
  let ?rs = "retained config allRepos"
  let ?fs = "concat (map (repo_records env ?prev) ?rs)"
  have res: "fst (scrapeOrg clock env config arg) = Inr (?fs, newState ?run)"
    by (rule resolved_files[OF assms])
  have rq: "repo_requests env ?prev r =
      (case owner_and_repoName (full_name r) of
         (owner, repoName) \<Rightarrow>
            GetRepoTree owner repoName (default_branch r) #
              (case tree_of env r of
                 Inl err \<Rightarrow> []
               | Inr T \<Rightarrow>
                   map (\<lambda>t. GetFileContent owner repoName (TreeEntry.path t))
                     (to_fetch (prev_bucket ?prev (full_name r)) T)))" for r
  proof -
    obtain owner repoName where on: "owner_and_repoName (full_name r) = (owner, repoName)"
      by (cases "owner_and_repoName (full_name r)")
    show ?thesis
    proof (cases "tree_of env r")
      case (Inl err)
      with on show ?thesis by (simp add: repo_requests_def tree_of_def)
    next
      case (Inr T)
      with on repo_requests_to_fetch[OF on Inr] show ?thesis by simp
    qed
  qed
  have rc: "repo_records env ?prev r =
      (case tree_of env r of
         Inl err \<Rightarrow> []
       | Inr T \<Rightarrow>
           concat (map (\<lambda>t. case content_of env r t of
                              Inl err \<Rightarrow> []
                            | Inr c \<Rightarrow> [\<lparr>ScrapedFile.repo = full_name r,
                                         ScrapedFile.path = TreeEntry.path t,
                                         content = c,
                                         ScrapedFile.sha = TreeEntry.sha t\<rparr>])
             (to_fetch (prev_bucket ?prev (full_name r)) T)))" for r
  proof (cases "tree_of env r")
    case (Inl err)
    then show ?thesis by (simp add: repo_records_def tree_of_def split: prod.splits)
  next
    case (Inr T)
    with repo_records_to_fetch[OF Inr] show ?thesis by simp
  qed
  have requests: "requests ?run = ListOrgRepos (org config) #
       concat (map (\<lambda>r. case owner_and_repoName (full_name r) of
                          (owner, repoName) \<Rightarrow>
                            GetRepoTree owner repoName (default_branch r) #
                            (case tree_of env r of
                               Inl err \<Rightarrow> []
                             | Inr T \<Rightarrow>
                                 map (\<lambda>t. GetFileContent owner repoName (TreeEntry.path t))
                                   (to_fetch (prev_bucket ?prev (full_name r)) T))) ?rs)"
    unfolding resolved_run(2)[OF assms] by (subst ext[of "repo_requests env ?prev", OF rq]) (rule refl)
  have files: "?fs = concat (map (\<lambda>r. case tree_of env r of
                          Inl err \<Rightarrow> []
                        | Inr T \<Rightarrow>
                            concat (map (\<lambda>t. case content_of env r t of
                                               Inl err \<Rightarrow> []
                                             | Inr c \<Rightarrow> [\<lparr>ScrapedFile.repo = full_name r,
                                                          ScrapedFile.path = TreeEntry.path t,
                                                          content = c,
                                                          ScrapedFile.sha = TreeEntry.sha t\<rparr>])
                              (to_fetch (prev_bucket ?prev (full_name r)) T))) ?rs)"
    by (subst ext[of "repo_records env ?prev", OF rc]) (rule refl)
  have mem: "\<lparr>ScrapedFile.repo = full_name r, ScrapedFile.path = TreeEntry.path t, content = c,
                 ScrapedFile.sha = TreeEntry.sha t\<rparr> \<in> set ?fs \<longleftrightarrow>
                \<not> same_sha (prev_entry ?prev (full_name r) (TreeEntry.path t)) t \<and>
                content_of env r t = Inr c"
    if r: "r \<in> set ?rs" and T: "tree_of env r = Inr T" and t: "t \<in> set T" for r T t c
  proof
    assume "\<lparr>ScrapedFile.repo = full_name r, ScrapedFile.path = TreeEntry.path t, content = c,
                 ScrapedFile.sha = TreeEntry.sha t\<rparr> \<in> set ?fs"
    then obtain r' T' t' c' where
      "full_name r' = full_name r" "TreeEntry.path t' = TreeEntry.path t"
      "TreeEntry.sha t' = TreeEntry.sha t" "c' = c"
      "\<not> same_sha (prev_entry ?prev (full_name r') (TreeEntry.path t')) t'"
      "content_of env r' t' = Inr c'"
      by (auto simp: in_repo_records)
    then show "\<not> same_sha (prev_entry ?prev (full_name r) (TreeEntry.path t)) t \<and>
                content_of env r t = Inr c"
      by (auto simp: same_sha_def content_of_def split: option.splits)
  next
    assume "\<not> same_sha (prev_entry ?prev (full_name r) (TreeEntry.path t)) t \<and>
                content_of env r t = Inr c"
    with r T t show "\<lparr>ScrapedFile.repo = full_name r, ScrapedFile.path = TreeEntry.path t, content = c,
                 ScrapedFile.sha = TreeEntry.sha t\<rparr> \<in> set ?fs"
      by (auto simp: in_repo_records intro!: bexI[of _ r])
  qed
  have skip: "\<forall>f\<in>set ?fs. \<not> (ScrapedFile.repo f = full_name r \<and>
                             ScrapedFile.path f = TreeEntry.path t \<and>
                             ScrapedFile.sha f = TreeEntry.sha t)"
    if e: "prev_bucket ?prev (full_name r) (TreeEntry.path t) = Some e"
      "FileEntry.sha e = TreeEntry.sha t" for r t e
  proof
    fix f assume "f \<in> set ?fs"
    then obtain r' where "f \<in> set (repo_records env ?prev r')" by auto
    then obtain t' c' where
      f: "f = \<lparr>ScrapedFile.repo = full_name r', ScrapedFile.path = TreeEntry.path t',
                content = c', ScrapedFile.sha = TreeEntry.sha t'\<rparr>" and
      n: "\<not> same_sha (prev_entry ?prev (full_name r') (TreeEntry.path t')) t'"
      unfolding in_repo_records by blast
    show "\<not> (ScrapedFile.repo f = full_name r \<and> ScrapedFile.path f = TreeEntry.path t \<and>
             ScrapedFile.sha f = TreeEntry.sha t)"
    proof
      assume "ScrapedFile.repo f = full_name r \<and> ScrapedFile.path f = TreeEntry.path t \<and>
             ScrapedFile.sha f = TreeEntry.sha t"
      with f e have "same_sha (prev_entry ?prev (full_name r') (TreeEntry.path t')) t'"
        by (simp add: same_sha_def prev_bucket_entry)
      with n show False by simp
    qed
  qed
  show ?thesis
    apply (intro exI[of _ ?fs] exI[of _ "newState ?run"] conjI)
       apply (rule res)
      apply (rule requests)
     apply (rule files)
    using mem skip by (simp add: not_same_sha_iff) blast
qed

theorem C1_witness:
  "(\<exists>fs ns. fst (scrapeOrg ex_clock ex_remote ex_config (Some ex_prevState)) = Inr (fs, ns) \<and>
      map (\<lambda>f. (ScrapedFile.repo f, ScrapedFile.path f)) fs =
        [(''test-org/repo-a'', ''docs/guide.md''), (''test-org/repo-b'', ''README.md'')] \<and>
      fs = concat (map (\<lambda>r. case tree_of ex_remote r of
                          Inl err \<Rightarrow> []
                        | Inr T \<Rightarrow>
                            concat (map (\<lambda>t. case content_of ex_remote r t of
                                               Inl err \<Rightarrow> []
                                             | Inr c \<Rightarrow> [\<lparr>ScrapedFile.repo = full_name r,
                                                          ScrapedFile.path = TreeEntry.path t,
                                                          content = c,
                                                          ScrapedFile.sha = TreeEntry.sha t\<rparr>])
                              (to_fetch (prev_bucket (default_prevState (Some ex_prevState)) (full_name r)) T)))
                   (retained ex_config [ex_repo_a, ex_repo_b]))) \<and>
   requests (snd (scrapeOrg ex_clock ex_remote ex_config (Some ex_prevState))) =
     [ListOrgRepos ''test-org'',
      GetRepoTree (Some ''test-org'') (Some ''repo-a'') ''main'',
      GetFileContent (Some ''test-org'') (Some ''repo-a'') ''docs/guide.md'',
      GetRepoTree (Some ''test-org'') (Some ''repo-b'') ''main'',
      GetFileContent (Some ''test-org'') (Some ''repo-b'') ''README.md'']"
proof -
  have l: "listOrgRepos ex_remote (org ex_config) = Inr [ex_repo_a, ex_repo_b]"
    by (simp add: ex_remote_def)
  have run:
    "fst (scrapeOrg ex_clock ex_remote ex_config (Some ex_prevState)) =
       Inr (results (snd (scrapeOrg ex_clock ex_remote ex_config (Some ex_prevState))),
            newState (snd (scrapeOrg ex_clock ex_remote ex_config (Some ex_prevState))))"
    "map (\<lambda>f. (ScrapedFile.repo f, ScrapedFile.path f))
       (results (snd (scrapeOrg ex_clock ex_remote ex_config (Some ex_prevState)))) =
        [(''test-org/repo-a'', ''docs/guide.md''), (''test-org/repo-b'', ''README.md'')]"
    "requests (snd (scrapeOrg ex_clock ex_remote ex_config (Some ex_prevState))) =
     [ListOrgRepos ''test-org'',
      GetRepoTree (Some ''test-org'') (Some ''repo-a'') ''main'',
      GetFileContent (Some ''test-org'') (Some ''repo-a'') ''docs/guide.md'',
      GetRepoTree (Some ''test-org'') (Some ''repo-b'') ''main'',
      GetFileContent (Some ''test-org'') (Some ''repo-b'') ''README.md'']"
    by (simp_all add: run_defs ex_defs)
  from C1_fetch_iff_changed[OF l, of ex_clock "Some ex_prevState"] obtain fs ns where
    r: "fst (scrapeOrg ex_clock ex_remote ex_config (Some ex_prevState)) = Inr (fs, ns)" and
    f: "fs = concat (map (\<lambda>r. case tree_of ex_remote r of
                          Inl err \<Rightarrow> []
                        | Inr T \<Rightarrow>
                            concat (map (\<lambda>t. case content_of ex_remote r t of
                                               Inl err \<Rightarrow> []
                                             | Inr c \<Rightarrow> [\<lparr>ScrapedFile.repo = full_name r,
                                                          ScrapedFile.path = TreeEntry.path t,
                                                          content = c,
                                                          ScrapedFile.sha = TreeEntry.sha t\<rparr>])
                              (to_fetch (prev_bucket (default_prevState (Some ex_prevState)) (full_name r)) T)))
                   (retained ex_config [ex_repo_a, ex_repo_b]))"
    by blast
  from r run(1) have "fs = results (snd (scrapeOrg ex_clock ex_remote ex_config (Some ex_prevState)))"
    by simp
  with run(2) have m: "map (\<lambda>f. (ScrapedFile.repo f, ScrapedFile.path f)) fs =
        [(''test-org/repo-a'', ''docs/guide.md''), (''test-org/repo-b'', ''README.md'')]"
    by simp
  show ?thesis
    by (intro conjI exI[of _ fs] exI[of _ ns]) (fact r m f run(3))+
qed

theorem C1_counterexample:
  "tree_of ex_remote_content_fails ex_repo_a = Inr [ex_readme_a, ex_guide_a] \<and>
   prev_bucket (default_prevState None) (full_name ex_repo_a) (TreeEntry.path ex_readme_a) = None \<and>
   (\<exists>fs ns. fst (scrapeOrg ex_clock ex_remote_content_fails ex_config None) = Inr (fs, ns) \<and>
      map (\<lambda>f. (ScrapedFile.repo f, ScrapedFile.path f)) fs =
        [(''test-org/repo-a'', ''docs/guide.md''), (''test-org/repo-b'', ''README.md'')]) \<and>
   requests (snd (scrapeOrg ex_clock ex_remote_content_fails ex_config None)) =
     [ListOrgRepos ''test-org'',
      GetRepoTree (Some ''test-org'') (Some ''repo-a'') ''main'',
      GetFileContent (Some ''test-org'') (Some ''repo-a'') ''README.md'',
      GetFileContent (Some ''test-org'') (Some ''repo-a'') ''docs/guide.md'',
      GetRepoTree (Some ''test-org'') (Some ''repo-b'') ''main'',
      GetFileContent (Some ''test-org'') (Some ''repo-b'') ''README.md'']"
  by (simp add: run_defs ex_defs tree_of_def prev_bucket_def)

text \<open>
  C4. For a retained repository \<open>r\<close> whose tree listing succeeded with entries \<open>T\<close>, the
  new store's bucket for \<open>r\<close> holds exactly the paths of \<open>T\<close>; in particular a path of
  the previous bucket that is absent from \<open>T\<close> is absent from the new bucket. The
  repository listing is taken to give one default branch per full name (a listing
  without duplicates does), so that \<open>T\<close> is the one tree walked under that name.
\<close>

theorem C4_bucket_is_current_tree:
  assumes "listOrgRepos env (org config) = Inr allRepos"
    and "r \<in> set (retained config allRepos)"
    and "tree_of env r = Inr T"
    and "\<forall>r'\<in>set (retained config allRepos).
           full_name r' = full_name r \<longrightarrow> default_branch r' = default_branch r"
  shows "\<exists>fs ns b. fst (scrapeOrg clock env config arg) = Inr (fs, ns) \<and>
           repos ns (full_name r) = Some b \<and>
           dom (files b) = TreeEntry.path ` set T \<and>
           (\<forall>p. prev_bucket (default_prevState arg) (full_name r) p \<noteq> None \<longrightarrow>
                p \<notin> TreeEntry.path ` set T \<longrightarrow> files b p = None)"
proof -
  from store_for_repo[OF assms, where clock=clock and arg=arg] obtain b where
    b: "repos (newState (snd (scrapeOrg clock env config arg))) (full_name r) = Some b" and
    ok: "bucket_ok clock (default_prevState arg) (full_name r) Map.empty T 1
               (ticks (snd (scrapeOrg clock env config arg))) (files b)"
    by blast
  from bucket_ok_dom[OF ok] have d: "dom (files b) = TreeEntry.path ` set T" .
  then have "\<forall>p. p \<notin> TreeEntry.path ` set T \<longrightarrow> files b p = None"
    by (auto simp: dom_def)
  with resolved_files[OF assms(1), where clock=clock and arg=arg] b d show ?thesis
    by blast
qed

theorem C4_witness:
  "\<exists>fs ns b. fst (scrapeOrg ex_clock ex_remote ex_config (Some ex_prevState)) = Inr (fs, ns) \<and>
      repos ns ''test-org/repo-a'' = Some b \<and>
      dom (files b) = {''README.md'', ''docs/guide.md''} \<and>
      prev_bucket ex_prevState ''test-org/repo-a'' ''docs/removed.md'' \<noteq> None \<and>
      files b ''docs/removed.md'' = None"
proof -
  have l: "listOrgRepos ex_remote (org ex_config) = Inr [ex_repo_a, ex_repo_b]"
    by (simp add: ex_remote_def)
  have r: "ex_repo_a \<in> set (retained ex_config [ex_repo_a, ex_repo_b])"
    by (simp add: retained_def ex_config_def)
  have t: "tree_of ex_remote ex_repo_a = Inr [ex_readme_a, ex_guide_a]"
    by (simp add: tree_of_def owner_and_repoName_def ex_defs)
  have u: "\<forall>r'\<in>set (retained ex_config [ex_repo_a, ex_repo_b]).
           full_name r' = full_name ex_repo_a \<longrightarrow> default_branch r' = default_branch ex_repo_a"
    by (simp add: retained_def ex_defs)
  have p: "prev_bucket (default_prevState (Some ex_prevState)) (full_name ex_repo_a) ''docs/removed.md'' \<noteq> None"
    "''docs/removed.md'' \<notin> TreeEntry.path ` set [ex_readme_a, ex_guide_a]"
    "TreeEntry.path ` set [ex_readme_a, ex_guide_a] = {''README.md'', ''docs/guide.md''}"
    "full_name ex_repo_a = ''test-org/repo-a''" "default_prevState (Some ex_prevState) = ex_prevState"
    by (simp_all add: prev_bucket_def default_prevState_def ex_defs)
  from C4_bucket_is_current_tree[OF l r t u, of ex_clock "Some ex_prevState"] obtain fs ns b where
    c: "fst (scrapeOrg ex_clock ex_remote ex_config (Some ex_prevState)) = Inr (fs, ns)"
       "repos ns (full_name ex_repo_a) = Some b"
       "dom (files b) = TreeEntry.path ` set [ex_readme_a, ex_guide_a]"
       "\<forall>p. prev_bucket (default_prevState (Some ex_prevState)) (full_name ex_repo_a) p \<noteq> None \<longrightarrow>
            p \<notin> TreeEntry.path ` set [ex_readme_a, ex_guide_a] \<longrightarrow> files b p = None"
    by blast
  from c(4) p(1,2) have "files b ''docs/removed.md'' = None" by blast
  with c(1,2,3) p show ?thesis
    by (intro exI[of _ fs] exI[of _ ns] exI[of _ b]) simp
qed

text \<open>
  C3. For a retained repository \<open>r\<close> whose tree listing succeeded and an entry \<open>t\<close> of
  its tree, the new store's bucket for \<open>r\<close> maps the path of \<open>t\<close> to an entry with the
  fingerprint of \<open>t\<close>, whose \<open>lastFetched\<close> is
  \<^item> the previous entry's \<open>lastFetched\<close>, unchanged, when the previous store has an
    entry for the path with the same fingerprint and that entry has the field;
  \<^item> a reading of the clock taken during this run after the first (\<open>Date.now()\<close>),
    when that previous entry lacks the field, when the path is new, and when the
    fingerprint changed.
  Which reading: the clock is read once when the run starts (reading 0, \<open>lastScrape\<close>)
  and then once for every entry recorded that is new, changed or lacks the field, in
  the order of the walk. When \<open>r\<close> is the last retained repository with its full name,
  after the repositories \<open>rs1\<close>, and \<open>t\<close> the last entry with its path, after the entries
  \<open>T1\<close>, the entry for \<open>t\<close> carries the reading taken when \<open>t\<close> is recorded: reading number
  1 + the readings for the trees of \<open>rs1\<close> + the readings for \<open>T1\<close>.
  The listing is taken to give one default branch per full name, and the tree one
  fingerprint for the path of \<open>t\<close> (a Git tree lists a path once).
\<close>

theorem C3_new_entry:
  assumes "listOrgRepos env (org config) = Inr allRepos"
    and "r \<in> set (retained config allRepos)"
    and "tree_of env r = Inr T"
    and "\<forall>r'\<in>set (retained config allRepos).
           full_name r' = full_name r \<longrightarrow> default_branch r' = default_branch r"
    and "t \<in> set T"
    and "\<forall>t'\<in>set T. TreeEntry.path t' = TreeEntry.path t \<longrightarrow> TreeEntry.sha t' = TreeEntry.sha t"
  shows "\<exists>fs ns b e. fst (scrapeOrg clock env config arg) = Inr (fs, ns) \<and>
           repos ns (full_name r) = Some b \<and>
           files b (TreeEntry.path t) = Some e \<and>
           FileEntry.sha e = TreeEntry.sha t \<and>
           (case prev_bucket (default_prevState arg) (full_name r) (TreeEntry.path t) of
              None \<Rightarrow>
                (\<exists>k. 0 < k \<and> k < ticks (snd (scrapeOrg clock env config arg)) \<and>
                     lastFetched e = Some (clock k))
            | Some prevEntry \<Rightarrow>
                if FileEntry.sha prevEntry = TreeEntry.sha t
                then (case lastFetched prevEntry of
                        Some stamp \<Rightarrow> lastFetched e = Some stamp
                      | None \<Rightarrow>
                          (\<exists>k. 0 < k \<and> k < ticks (snd (scrapeOrg clock env config arg)) \<and>
                               lastFetched e = Some (clock k)))
                else (\<exists>k. 0 < k \<and> k < ticks (snd (scrapeOrg clock env config arg)) \<and>
                          lastFetched e = Some (clock k))) \<and>
           (\<forall>rs1 rs2 T1 T2.
              retained config allRepos = rs1 @ r # rs2 \<longrightarrow>
              (\<forall>r'\<in>set rs2. full_name r' \<noteq> full_name r) \<longrightarrow>
              T = T1 @ t # T2 \<longrightarrow>
              (\<forall>t'\<in>set T2. TreeEntry.path t' \<noteq> TreeEntry.path t) \<longrightarrow>
              (case prev_bucket (default_prevState arg) (full_name r) (TreeEntry.path t) of
                 None \<Rightarrow>
                   lastFetched e =
                     Some (clock (1 + clock_reads env (default_prevState arg) rs1 +
                                  tree_reads (default_prevState arg) r T1))
               | Some prevEntry \<Rightarrow>
                   if FileEntry.sha prevEntry = TreeEntry.sha t
                   then (case lastFetched prevEntry of
                           Some stamp \<Rightarrow> lastFetched e = Some stamp
                         | None \<Rightarrow>
                             lastFetched e =
                               Some (clock (1 + clock_reads env (default_prevState arg) rs1 +
                                            tree_reads (default_prevState arg) r T1)))
                   else lastFetched e =
                          Some (clock (1 + clock_reads env (default_prevState arg) rs1 +
                                       tree_reads (default_prevState arg) r T1))))"
proof -
  from store_for_repo[OF assms(1-4), where clock=clock and arg=arg] obtain b where
    b: "repos (newState (snd (scrapeOrg clock env config arg))) (full_name r) = Some b" and
    ok: "bucket_ok clock (default_prevState arg) (full_name r) Map.empty T 1
               (ticks (snd (scrapeOrg clock env config arg))) (files b)"
    by blast
  from bucket_ok_entry[OF ok assms(5,6)] obtain e where
    e: "files b (TreeEntry.path t) = Some e" "FileEntry.sha e = TreeEntry.sha t" and
    s: "stamp_ok clock (prev_entry (default_prevState arg) (full_name r) (TreeEntry.path t))
          (TreeEntry.sha t) 1 (ticks (snd (scrapeOrg clock env config arg))) (lastFetched e)"
    by blast
  from s have range: "case prev_bucket (default_prevState arg) (full_name r) (TreeEntry.path t) of
              None \<Rightarrow>
                (\<exists>k. 0 < k \<and> k < ticks (snd (scrapeOrg clock env config arg)) \<and>
                     lastFetched e = Some (clock k))
            | Some prevEntry \<Rightarrow>
                if FileEntry.sha prevEntry = TreeEntry.sha t
                then (case lastFetched prevEntry of
                        Some stamp \<Rightarrow> lastFetched e = Some stamp
                      | None \<Rightarrow>
                          (\<exists>k. 0 < k \<and> k < ticks (snd (scrapeOrg clock env config arg)) \<and>
                               lastFetched e = Some (clock k)))
                else (\<exists>k. 0 < k \<and> k < ticks (snd (scrapeOrg clock env config arg)) \<and>
                          lastFetched e = Some (clock k))"
    unfolding prev_bucket_entry by (rule stamp_ok_cases)
  have exact: "case prev_bucket (default_prevState arg) (full_name r) (TreeEntry.path t) of
                 None \<Rightarrow>
                   lastFetched e =
                     Some (clock (1 + clock_reads env (default_prevState arg) rs1 +
                                  tree_reads (default_prevState arg) r T1))
               | Some prevEntry \<Rightarrow>
                   if FileEntry.sha prevEntry = TreeEntry.sha t
                   then (case lastFetched prevEntry of
                           Some stamp \<Rightarrow> lastFetched e = Some stamp
                         | None \<Rightarrow>
                             lastFetched e =
                               Some (clock (1 + clock_reads env (default_prevState arg) rs1 +
                                            tree_reads (default_prevState arg) r T1)))
                   else lastFetched e =
                          Some (clock (1 + clock_reads env (default_prevState arg) rs1 +
                                       tree_reads (default_prevState arg) r T1))"
    if d: "retained config allRepos = rs1 @ r # rs2" "\<forall>r'\<in>set rs2. full_name r' \<noteq> full_name r"
      "T = T1 @ t # T2" "\<forall>t'\<in>set T2. TreeEntry.path t' \<noteq> TreeEntry.path t"
    for rs1 rs2 T1 T2
  proof -
    from resolved_exact[OF assms(1) d(1,2) assms(3)[unfolded d(3)] d(4), where clock=clock and arg=arg]
      b e(1)
    have "lastFetched e =
            Some (stamp_at clock (default_prevState arg) r t
                    (1 + clock_reads env (default_prevState arg) rs1 +
                     tree_reads (default_prevState arg) r T1))"
      by auto
    then show ?thesis
      unfolding prev_bucket_entry by (simp add: stamp_at_def split: option.splits)
  qed
  from resolved_files[OF assms(1), where clock=clock and arg=arg] b e range exact show ?thesis
    by blast
qed

theorem C3_witness:
  "\<exists>fs ns a b e1 e2 e3.
      fst (scrapeOrg ex_clock ex_remote ex_config (Some ex_prevState)) = Inr (fs, ns) \<and>
      repos ns ''test-org/repo-a'' = Some a \<and>
      files a ''README.md'' = Some e1 \<and> FileEntry.sha e1 = ''sha-readme-a'' \<and>
      lastFetched e1 = Some 1699999999000 \<and>
      files a ''docs/guide.md'' = Some e2 \<and> FileEntry.sha e2 = ''sha-guide-a'' \<and>
      lastFetched e2 = Some 1700000000001 \<and>
      repos ns ''test-org/repo-b'' = Some b \<and>
      files b ''README.md'' = Some e3 \<and> FileEntry.sha e3 = ''sha-readme-b'' \<and>
      lastFetched e3 = Some 1700000000002"
proof -
  let ?ns = "newState (snd (scrapeOrg ex_clock ex_remote ex_config (Some ex_prevState)))"
  have l: "listOrgRepos ex_remote (org ex_config) = Inr [ex_repo_a, ex_repo_b]"
    by (simp add: ex_remote_def)
  have rs: "retained ex_config [ex_repo_a, ex_repo_b] = [ex_repo_a, ex_repo_b]"
    by (simp add: retained_def ex_config_def)
  have dp: "default_prevState (Some ex_prevState) = ex_prevState"
    by (simp add: default_prevState_def)
  from resolved_files[OF l, of ex_clock "Some ex_prevState"] obtain fs where
    run: "fst (scrapeOrg ex_clock ex_remote ex_config (Some ex_prevState)) = Inr (fs, ?ns)"
    by blast
  have inst: "\<exists>b e. repos ?ns (full_name r) = Some b \<and> files b (TreeEntry.path t) = Some e \<and>
                FileEntry.sha e = TreeEntry.sha t \<and>
                lastFetched e =
                  Some (stamp_at ex_clock ex_prevState r t
                          (1 + clock_reads ex_remote ex_prevState rs1 + tree_reads ex_prevState r T1))"
    if h: "r \<in> set (retained ex_config [ex_repo_a, ex_repo_b])"
      "tree_of ex_remote r = Inr T"
      "\<forall>r'\<in>set (retained ex_config [ex_repo_a, ex_repo_b]).
         full_name r' = full_name r \<longrightarrow> default_branch r' = default_branch r"
      "t \<in> set T"
      "\<forall>t'\<in>set T. TreeEntry.path t' = TreeEntry.path t \<longrightarrow> TreeEntry.sha t' = TreeEntry.sha t"
      and d: "retained ex_config [ex_repo_a, ex_repo_b] = rs1 @ r # rs2"
      "\<forall>r'\<in>set rs2. full_name r' \<noteq> full_name r"
      "T = T1 @ t # T2"
      "\<forall>t'\<in>set T2. TreeEntry.path t' \<noteq> TreeEntry.path t"
    for r T t rs1 rs2 T1 T2
  proof -
    from C3_new_entry[OF l h, of ex_clock "Some ex_prevState"] obtain fs' ns' b e where
      c: "fst (scrapeOrg ex_clock ex_remote ex_config (Some ex_prevState)) = Inr (fs', ns')"
        "repos ns' (full_name r) = Some b" "files b (TreeEntry.path t) = Some e"
        "FileEntry.sha e = TreeEntry.sha t" and
      x: "\<forall>rs1 rs2 T1 T2.
              retained ex_config [ex_repo_a, ex_repo_b] = rs1 @ r # rs2 \<longrightarrow>
              (\<forall>r'\<in>set rs2. full_name r' \<noteq> full_name r) \<longrightarrow>
              T = T1 @ t # T2 \<longrightarrow>
              (\<forall>t'\<in>set T2. TreeEntry.path t' \<noteq> TreeEntry.path t) \<longrightarrow>
              (case prev_bucket (default_prevState (Some ex_prevState)) (full_name r) (TreeEntry.path t) of
                 None \<Rightarrow>
                   lastFetched e =
                     Some (ex_clock (1 + clock_reads ex_remote (default_prevState (Some ex_prevState)) rs1 +
                                  tree_reads (default_prevState (Some ex_prevState)) r T1))
               | Some prevEntry \<Rightarrow>
                   if FileEntry.sha prevEntry = TreeEntry.sha t
                   then (case lastFetched prevEntry of
                           Some stamp \<Rightarrow> lastFetched e = Some stamp
                         | None \<Rightarrow>
                             lastFetched e =
                               Some (ex_clock (1 + clock_reads ex_remote (default_prevState (Some ex_prevState)) rs1 +
                                            tree_reads (default_prevState (Some ex_prevState)) r T1)))
                   else lastFetched e =
                          Some (ex_clock (1 + clock_reads ex_remote (default_prevState (Some ex_prevState)) rs1 +
                                       tree_reads (default_prevState (Some ex_prevState)) r T1)))"
      by blast
    from c(1) run have "ns' = ?ns" by simp
    moreover from x[rule_format, OF d(1) d(2)[rule_format] d(3) d(4)[rule_format]] have "lastFetched e =
                  Some (stamp_at ex_clock ex_prevState r t
                          (1 + clock_reads ex_remote ex_prevState rs1 + tree_reads ex_prevState r T1))"
      unfolding dp prev_bucket_entry by (auto simp: stamp_at_def split: option.splits if_splits)
    ultimately show ?thesis using c by blast
  qed
  have ta: "tree_of ex_remote ex_repo_a = Inr [ex_readme_a, ex_guide_a]"
    and tb: "tree_of ex_remote ex_repo_b = Inr [ex_readme_b]"
    by (simp_all add: tree_of_def owner_and_repoName_def ex_defs)
  have n: "full_name ex_repo_a = ''test-org/repo-a''" "full_name ex_repo_b = ''test-org/repo-b''"
    "TreeEntry.path ex_readme_a = ''README.md''" "TreeEntry.sha ex_readme_a = ''sha-readme-a''"
    "TreeEntry.path ex_guide_a = ''docs/guide.md''" "TreeEntry.sha ex_guide_a = ''sha-guide-a''"
    "TreeEntry.path ex_readme_b = ''README.md''" "TreeEntry.sha ex_readme_b = ''sha-readme-b''"
    by (simp_all add: ex_defs)
  have k: "stamp_at ex_clock ex_prevState ex_repo_a ex_readme_a
             (1 + clock_reads ex_remote ex_prevState [] + tree_reads ex_prevState ex_repo_a []) =
           1699999999000"
    "stamp_at ex_clock ex_prevState ex_repo_a ex_guide_a
             (1 + clock_reads ex_remote ex_prevState [] + tree_reads ex_prevState ex_repo_a [ex_readme_a]) =
           1700000000001"
    "stamp_at ex_clock ex_prevState ex_repo_b ex_readme_b
             (1 + clock_reads ex_remote ex_prevState [ex_repo_a] + tree_reads ex_prevState ex_repo_b []) =
           1700000000002"
    by (simp_all add: stamp_at_def clock_reads_def repo_reads_def tree_reads_def reads_clock_def
          tree_of_def owner_and_repoName_def prev_entry_def ex_defs)
  have ha: "ex_repo_a \<in> set (retained ex_config [ex_repo_a, ex_repo_b])"
    and hb: "ex_repo_b \<in> set (retained ex_config [ex_repo_a, ex_repo_b])"
    by (simp_all add: rs)
  have ua: "\<forall>r'\<in>set (retained ex_config [ex_repo_a, ex_repo_b]).
           full_name r' = full_name ex_repo_a \<longrightarrow> default_branch r' = default_branch ex_repo_a"
    and ub: "\<forall>r'\<in>set (retained ex_config [ex_repo_a, ex_repo_b]).
           full_name r' = full_name ex_repo_b \<longrightarrow> default_branch r' = default_branch ex_repo_b"
    by (simp_all add: retained_def ex_defs)
  have m1: "ex_readme_a \<in> set [ex_readme_a, ex_guide_a]"
    and m2: "ex_guide_a \<in> set [ex_readme_a, ex_guide_a]"
    and m3: "ex_readme_b \<in> set [ex_readme_b]"
    by simp_all
  have p1: "\<forall>t'\<in>set [ex_readme_a, ex_guide_a].
      TreeEntry.path t' = TreeEntry.path ex_readme_a \<longrightarrow> TreeEntry.sha t' = TreeEntry.sha ex_readme_a"
    and p2: "\<forall>t'\<in>set [ex_readme_a, ex_guide_a].
      TreeEntry.path t' = TreeEntry.path ex_guide_a \<longrightarrow> TreeEntry.sha t' = TreeEntry.sha ex_guide_a"
    and p3: "\<forall>t'\<in>set [ex_readme_b].
      TreeEntry.path t' = TreeEntry.path ex_readme_b \<longrightarrow> TreeEntry.sha t' = TreeEntry.sha ex_readme_b"
    by (simp_all add: ex_defs)
  have da: "retained ex_config [ex_repo_a, ex_repo_b] = [] @ ex_repo_a # [ex_repo_b]"
    and db: "retained ex_config [ex_repo_a, ex_repo_b] = [ex_repo_a] @ ex_repo_b # []"
    by (simp_all add: rs)
  have la: "\<forall>r'\<in>set [ex_repo_b]. full_name r' \<noteq> full_name ex_repo_a"
    and lb: "\<forall>r'\<in>set []. full_name r' \<noteq> full_name ex_repo_b"
    by (simp_all add: ex_defs)
  have t1: "[ex_readme_a, ex_guide_a] = [] @ ex_readme_a # [ex_guide_a]"
    and t2: "[ex_readme_a, ex_guide_a] = [ex_readme_a] @ ex_guide_a # []"
    and t3: "[ex_readme_b] = [] @ ex_readme_b # []"
    by simp_all
  have q1: "\<forall>t'\<in>set [ex_guide_a]. TreeEntry.path t' \<noteq> TreeEntry.path ex_readme_a"
    and q2: "\<forall>t'\<in>set []. TreeEntry.path t' \<noteq> TreeEntry.path ex_guide_a"
    and q3: "\<forall>t'\<in>set []. TreeEntry.path t' \<noteq> TreeEntry.path ex_readme_b"
    by (simp_all add: ex_defs)
  from inst[OF ha ta ua m1 p1 da la t1 q1] obtain a e1 where
    1: "repos ?ns ''test-org/repo-a'' = Some a" "files a ''README.md'' = Some e1"
      "FileEntry.sha e1 = ''sha-readme-a''" "lastFetched e1 = Some 1699999999000"
    unfolding k n by blast
  from inst[OF ha ta ua m2 p2 da la t2 q2] obtain a' e2 where
    2: "repos ?ns ''test-org/repo-a'' = Some a'" "files a' ''docs/guide.md'' = Some e2"
      "FileEntry.sha e2 = ''sha-guide-a''" "lastFetched e2 = Some 1700000000001"
    unfolding k n by blast
  from inst[OF hb tb ub m3 p3 db lb t3 q3] obtain b e3 where
    3: "repos ?ns ''test-org/repo-b'' = Some b" "files b ''README.md'' = Some e3"
      "FileEntry.sha e3 = ''sha-readme-b''" "lastFetched e3 = Some 1700000000002"
    unfolding k n by blast
  from 1(1) 2(1) have "a' = a" by simp
  with run 1 2 3 show ?thesis
    by (intro exI[of _ fs] exI[of _ ?ns] exI[of _ a] exI[of _ b] exI[of _ e1] exI[of _ e2]
          exI[of _ e3]) simp
qed

text \<open>
  C5. When the tree listing of a retained repository \<open>r\<close> fails (and the repository
  listing succeeded), the run is not rejected: it returns, the tree of every retained
  repository is still requested, and every file of another repository that was due
  (new or changed) and whose content request succeeded is in the returned list. If
  the listing gives one default branch per full name, the new store has no bucket for
  \<open>r\<close> and no returned file names \<open>r\<close>.
\<close>

theorem C5_tree_failure_isolated:
  assumes "listOrgRepos env (org config) = Inr allRepos"
    and "r \<in> set (retained config allRepos)"
    and "tree_of env r = Inl err"
  shows "\<exists>fs ns. fst (scrapeOrg clock env config arg) = Inr (fs, ns) \<and>
     (\<forall>r'\<in>set (retained config allRepos). \<forall>owner repoName.
        owner_and_repoName (full_name r') = (owner, repoName) \<longrightarrow>
        GetRepoTree owner repoName (default_branch r') \<in>
          set (requests (snd (scrapeOrg clock env config arg)))) \<and>
     (\<forall>r'\<in>set (retained config allRepos). \<forall>T. tree_of env r' = Inr T \<longrightarrow>
        (\<forall>t\<in>set T. \<forall>c.
           (prev_bucket (default_prevState arg) (full_name r') (TreeEntry.path t) = None \<or>
            (\<exists>e. prev_bucket (default_prevState arg) (full_name r') (TreeEntry.path t) = Some e \<and>
                 FileEntry.sha e \<noteq> TreeEntry.sha t)) \<longrightarrow>
           content_of env r' t = Inr c \<longrightarrow>
           \<lparr>ScrapedFile.repo = full_name r', ScrapedFile.path = TreeEntry.path t, content = c,
            ScrapedFile.sha = TreeEntry.sha t\<rparr> \<in> set fs)) \<and>
     ((\<forall>r'\<in>set (retained config allRepos).
          full_name r' = full_name r \<longrightarrow> default_branch r' = default_branch r) \<longrightarrow>
      repos ns (full_name r) = None \<and> (\<forall>f\<in>set fs. ScrapedFile.repo f \<noteq> full_name r))"
proof -
  let ?run = "snd (scrapeOrg clock env config arg)"
  let ?rs = "retained config allRepos"
  let ?fs = "concat (map (repo_records env (default_prevState arg)) ?rs)"
  have res: "fst (scrapeOrg clock env config arg) = Inr (?fs, newState ?run)"
    by (rule resolved_files[OF assms(1)])
  have a: "\<forall>r'\<in>set ?rs. \<forall>owner repoName.
        owner_and_repoName (full_name r') = (owner, repoName) \<longrightarrow>
        GetRepoTree owner repoName (default_branch r') \<in> set (requests ?run)"
    using tree_request_made[OF assms(1)] by blast
  have b: "\<forall>r'\<in>set ?rs. \<forall>T. tree_of env r' = Inr T \<longrightarrow>
        (\<forall>t\<in>set T. \<forall>c.
           (prev_bucket (default_prevState arg) (full_name r') (TreeEntry.path t) = None \<or>
            (\<exists>e. prev_bucket (default_prevState arg) (full_name r') (TreeEntry.path t) = Some e \<and>
                 FileEntry.sha e \<noteq> TreeEntry.sha t)) \<longrightarrow>
           content_of env r' t = Inr c \<longrightarrow>
           \<lparr>ScrapedFile.repo = full_name r', ScrapedFile.path = TreeEntry.path t, content = c,
            ScrapedFile.sha = TreeEntry.sha t\<rparr> \<in> set ?fs)"
    using record_in_files[OF assms(1) _ _ _ _ _ res] unfolding not_same_sha_iff by blast
  have c: "repos (newState ?run) (full_name r) = None \<and> (\<forall>f\<in>set ?fs. ScrapedFile.repo f \<noteq> full_name r)"
    if u: "\<forall>r'\<in>set ?rs. full_name r' = full_name r \<longrightarrow> default_branch r' = default_branch r"
  proof -
    have fail: "\<not> tree_ok env r'" if "r' \<in> set ?rs" "full_name r' = full_name r" for r'
    proof -
      from that u have "tree_of env r' = tree_of env r" by (auto intro: tree_of_cong)
      with assms(3) show ?thesis by (simp add: tree_ok_def)
    qed
    then have "repos (newState ?run) (full_name r) = None"
      by (intro store_no_bucket[OF assms(1)]) blast
    moreover have "ScrapedFile.repo f \<noteq> full_name r" if "f \<in> set ?fs" for f
    proof
      assume eq: "ScrapedFile.repo f = full_name r"
      from that obtain r' where r': "r' \<in> set ?rs" "f \<in> set (repo_records env (default_prevState arg) r')"
        by auto
      from r'(2) eq have "full_name r' = full_name r" "tree_ok env r'"
        unfolding in_repo_records by (auto simp: tree_ok_def)
      with fail[OF r'(1)] show False by simp
    qed
    ultimately show ?thesis by blast
  qed
  show ?thesis
    by (intro exI[of _ ?fs] exI[of _ "newState ?run"] conjI impI; (rule res a b)?) (use c in blast)+
qed

theorem C5_witness:
  "\<exists>fs ns. fst (scrapeOrg ex_clock ex_remote_tree_fails ex_config None) = Inr (fs, ns) \<and>
     map (\<lambda>f. (ScrapedFile.repo f, ScrapedFile.path f)) fs =
       [(''test-org/repo-a'', ''README.md''), (''test-org/repo-a'', ''docs/guide.md'')] \<and>
     repos ns ''test-org/repo-b'' = None \<and>
     (\<forall>f\<in>set fs. ScrapedFile.repo f \<noteq> ''test-org/repo-b'')"
proof -
  have l: "listOrgRepos ex_remote_tree_fails (org ex_config) = Inr [ex_repo_a, ex_repo_b]"
    by (simp add: ex_remote_tree_fails_def)
  have r: "ex_repo_b \<in> set (retained ex_config [ex_repo_a, ex_repo_b])"
    by (simp add: retained_def ex_config_def)
  have t: "tree_of ex_remote_tree_fails ex_repo_b = Inl (Error ''Git Repository is empty.'')"
    by (simp add: tree_of_def owner_and_repoName_def ex_defs)
  have u: "\<forall>r'\<in>set (retained ex_config [ex_repo_a, ex_repo_b]).
           full_name r' = full_name ex_repo_b \<longrightarrow> default_branch r' = default_branch ex_repo_b"
    by (simp add: retained_def ex_defs)
  have n: "full_name ex_repo_b = ''test-org/repo-b''" by (simp add: ex_defs)
  have run: "fst (scrapeOrg ex_clock ex_remote_tree_fails ex_config None) =
       Inr (results (snd (scrapeOrg ex_clock ex_remote_tree_fails ex_config None)),
            newState (snd (scrapeOrg ex_clock ex_remote_tree_fails ex_config None)))"
    "map (\<lambda>f. (ScrapedFile.repo f, ScrapedFile.path f))
       (results (snd (scrapeOrg ex_clock ex_remote_tree_fails ex_config None))) =
       [(''test-org/repo-a'', ''README.md''), (''test-org/repo-a'', ''docs/guide.md'')]"
    by (simp_all add: run_defs ex_defs)
  from C5_tree_failure_isolated[OF l r t, of ex_clock None] u obtain fs ns where
    c: "fst (scrapeOrg ex_clock ex_remote_tree_fails ex_config None) = Inr (fs, ns)"
       "repos ns (full_name ex_repo_b) = None"
       "\<forall>f\<in>set fs. ScrapedFile.repo f \<noteq> full_name ex_repo_b"
    by blast
  from c(1) run have "map (\<lambda>f. (ScrapedFile.repo f, ScrapedFile.path f)) fs =
       [(''test-org/repo-a'', ''README.md''), (''test-org/repo-a'', ''docs/guide.md'')]"
    by simp
  with c show ?thesis unfolding n
    by (intro exI[of _ fs] exI[of _ ns]) simp
qed



text \<open>
  C2. As stated the claim fails: the store holds \<open>lastScrape\<close>, which every run sets to
  its own starting time, so the second run's store differs from the first run's
  whenever the clock has advanced (see the counterexample). What holds: when the
  repository listing succeeds, both runs return; the second run's \<open>repos\<close> mapping
  (every bucket, path, fingerprint and \<open>lastFetched\<close>) equals the first run's, while
  \<open>lastScrape\<close> is the starting time of each run; and if the remote lists one default
  branch per full name and each tree one fingerprint per path, the second run returns
  no file and requests no content (only the listing and one tree per retained
  repository).
\<close>

theorem C2_idempotent_rerun:
  assumes "listOrgRepos env (org config) = Inr allRepos"
  shows "\<exists>fs1 ns1 fs2 ns2.
     fst (scrapeOrg clock1 env config arg) = Inr (fs1, ns1) \<and>
     fst (scrapeOrg clock2 env config (Some ns1)) = Inr (fs2, ns2) \<and>
     repos ns2 = repos ns1 \<and>
     lastScrape ns1 = Some (clock1 0) \<and> lastScrape ns2 = Some (clock2 0) \<and>
     ((\<forall>r\<in>set (retained config allRepos). \<forall>r'\<in>set (retained config allRepos).
          full_name r' = full_name r \<longrightarrow> default_branch r' = default_branch r) \<longrightarrow>
      (\<forall>r\<in>set (retained config allRepos). \<forall>T. tree_of env r = Inr T \<longrightarrow>
          (\<forall>t\<in>set T. \<forall>t'\<in>set T.
             TreeEntry.path t' = TreeEntry.path t \<longrightarrow> TreeEntry.sha t' = TreeEntry.sha t)) \<longrightarrow>
      fs2 = [] \<and>
      requests (snd (scrapeOrg clock2 env config (Some ns1))) =
        ListOrgRepos (org config) #
        map (\<lambda>r. case owner_and_repoName (full_name r) of
                   (owner, repoName) \<Rightarrow> GetRepoTree owner repoName (default_branch r))
          (retained config allRepos))"
proof -
  let ?rs = "retained config allRepos"
  let ?run1 = "snd (scrapeOrg clock1 env config arg)"
  let ?ns1 = "newState ?run1"
  let ?run2 = "snd (scrapeOrg clock2 env config (Some ?ns1))"
  let ?ns2 = "newState ?run2"
  let ?fs1 = "concat (map (repo_records env (default_prevState arg)) ?rs)"
  let ?fs2 = "concat (map (repo_records env (default_prevState (Some ?ns1))) ?rs)"
  have r1: "fst (scrapeOrg clock1 env config arg) = Inr (?fs1, ?ns1)"
    by (rule resolved_files[OF assms])
  have r2: "fst (scrapeOrg clock2 env config (Some ?ns1)) = Inr (?fs2, ?ns2)"
    by (rule resolved_files[OF assms])
  have eq: "repos ?ns2 = repos ?ns1"
    by (rule repos_rerun[OF assms])
  have l1: "lastScrape ?ns1 = Some (clock1 0)" and l2: "lastScrape ?ns2 = Some (clock2 0)"
    by (rule resolved_store(1)[OF assms])+
  have d [simp]: "default_prevState (Some ?ns1) = ?ns1"
    by (simp add: default_prevState_def)
  have idle: "?fs2 = [] \<and>
      requests ?run2 =
        ListOrgRepos (org config) #
        map (\<lambda>r. case owner_and_repoName (full_name r) of
                   (owner, repoName) \<Rightarrow> GetRepoTree owner repoName (default_branch r)) ?rs"
    if u: "\<forall>r\<in>set ?rs. \<forall>r'\<in>set ?rs.
          full_name r' = full_name r \<longrightarrow> default_branch r' = default_branch r"
      and p: "\<forall>r\<in>set ?rs. \<forall>T. tree_of env r = Inr T \<longrightarrow>
          (\<forall>t\<in>set T. \<forall>t'\<in>set T.
             TreeEntry.path t' = TreeEntry.path t \<longrightarrow> TreeEntry.sha t' = TreeEntry.sha t)"
  proof -
    note n = rerun_nothing_to_fetch[OF assms u p, where clock=clock1 and arg=arg]
    have "map (repo_records env ?ns1) ?rs = map (\<lambda>r. []) ?rs"
      by (rule map_cong[OF refl]) (rule n(1))
    then have a: "?fs2 = []" by simp
    have "map (repo_requests env ?ns1) ?rs =
          map (\<lambda>r. case owner_and_repoName (full_name r) of
                   (owner, repoName) \<Rightarrow> [GetRepoTree owner repoName (default_branch r)]) ?rs"
      by (rule map_cong[OF refl]) (rule n(2))
    also have "concat \<dots> = map (\<lambda>r. case owner_and_repoName (full_name r) of
                   (owner, repoName) \<Rightarrow> GetRepoTree owner repoName (default_branch r)) ?rs"
      by (rule concat_map_case_singleton)
    finally have "requests ?run2 =
        ListOrgRepos (org config) #
        map (\<lambda>r. case owner_and_repoName (full_name r) of
                   (owner, repoName) \<Rightarrow> GetRepoTree owner repoName (default_branch r)) ?rs"
      unfolding resolved_run(2)[OF assms] d by simp
    with a show ?thesis by simp
  qed
  show ?thesis
    by (intro exI[of _ ?fs1] exI[of _ ?ns1] exI[of _ ?fs2] exI[of _ ?ns2] conjI impI;
        (rule r1 r2 eq l1 l2)?) (use idle in blast)+
qed

theorem C2_witness:
  "\<exists>fs1 ns1 fs2 ns2.
     fst (scrapeOrg ex_clock ex_remote ex_config (Some ex_prevState)) = Inr (fs1, ns1) \<and>
     map (\<lambda>f. (ScrapedFile.repo f, ScrapedFile.path f)) fs1 =
       [(''test-org/repo-a'', ''docs/guide.md''), (''test-org/repo-b'', ''README.md'')] \<and>
     fst (scrapeOrg ex_clock_later ex_remote ex_config (Some ns1)) = Inr (fs2, ns2) \<and>
     repos ns2 = repos ns1 \<and> fs2 = [] \<and>
     lastScrape ns1 = Some 1700000000000 \<and> lastScrape ns2 = Some 1700000600000 \<and>
     requests (snd (scrapeOrg ex_clock_later ex_remote ex_config (Some ns1))) =
       [ListOrgRepos ''test-org'',
        GetRepoTree (Some ''test-org'') (Some ''repo-a'') ''main'',
        GetRepoTree (Some ''test-org'') (Some ''repo-b'') ''main'']"
proof -
  have l: "listOrgRepos ex_remote (org ex_config) = Inr [ex_repo_a, ex_repo_b]"
    by (simp add: ex_remote_def)
  have rs: "retained ex_config [ex_repo_a, ex_repo_b] = [ex_repo_a, ex_repo_b]"
    by (simp add: retained_def ex_config_def)
  have t: "tree_of ex_remote ex_repo_a = Inr [ex_readme_a, ex_guide_a]"
    "tree_of ex_remote ex_repo_b = Inr [ex_readme_b]"
    by (simp_all add: tree_of_def owner_and_repoName_def ex_defs)
  have u: "\<forall>r\<in>set (retained ex_config [ex_repo_a, ex_repo_b]).
           \<forall>r'\<in>set (retained ex_config [ex_repo_a, ex_repo_b]).
           full_name r' = full_name r \<longrightarrow> default_branch r' = default_branch r"
    unfolding rs by (simp add: ex_defs)
  have p: "\<forall>r\<in>set (retained ex_config [ex_repo_a, ex_repo_b]). \<forall>T. tree_of ex_remote r = Inr T \<longrightarrow>
          (\<forall>t\<in>set T. \<forall>t'\<in>set T.
             TreeEntry.path t' = TreeEntry.path t \<longrightarrow> TreeEntry.sha t' = TreeEntry.sha t)"
    unfolding rs by (auto simp: t) (simp_all add: ex_defs)
  have run: "fst (scrapeOrg ex_clock ex_remote ex_config (Some ex_prevState)) =
       Inr (results (snd (scrapeOrg ex_clock ex_remote ex_config (Some ex_prevState))),
            newState (snd (scrapeOrg ex_clock ex_remote ex_config (Some ex_prevState))))"
    "map (\<lambda>f. (ScrapedFile.repo f, ScrapedFile.path f))
       (results (snd (scrapeOrg ex_clock ex_remote ex_config (Some ex_prevState)))) =
       [(''test-org/repo-a'', ''docs/guide.md''), (''test-org/repo-b'', ''README.md'')]"
    by (simp_all add: run_defs ex_defs)
  have c: "ex_clock 0 = 1700000000000" "ex_clock_later 0 = 1700000600000"
    "org ex_config = ''test-org''"
    "map (\<lambda>r. case owner_and_repoName (full_name r) of
                   (owner, repoName) \<Rightarrow> GetRepoTree owner repoName (default_branch r))
          (retained ex_config [ex_repo_a, ex_repo_b]) =
       [GetRepoTree (Some ''test-org'') (Some ''repo-a'') ''main'',
        GetRepoTree (Some ''test-org'') (Some ''repo-b'') ''main'']"
    unfolding rs by (simp_all add: owner_and_repoName_def ex_defs)
  from C2_idempotent_rerun[OF l, of ex_clock "Some ex_prevState" ex_clock_later] u p
  obtain fs1 ns1 fs2 ns2 where
    x: "fst (scrapeOrg ex_clock ex_remote ex_config (Some ex_prevState)) = Inr (fs1, ns1)"
       "fst (scrapeOrg ex_clock_later ex_remote ex_config (Some ns1)) = Inr (fs2, ns2)"
       "repos ns2 = repos ns1"
       "lastScrape ns1 = Some (ex_clock 0)" "lastScrape ns2 = Some (ex_clock_later 0)"
       "fs2 = []"
       "requests (snd (scrapeOrg ex_clock_later ex_remote ex_config (Some ns1))) =
        ListOrgRepos (org ex_config) #
        map (\<lambda>r. case owner_and_repoName (full_name r) of
                   (owner, repoName) \<Rightarrow> GetRepoTree owner repoName (default_branch r))
          (retained ex_config [ex_repo_a, ex_repo_b])"
    by blast
  from x(1) run have "map (\<lambda>f. (ScrapedFile.repo f, ScrapedFile.path f)) fs1 =
       [(''test-org/repo-a'', ''docs/guide.md''), (''test-org/repo-b'', ''README.md'')]"
    by simp
  with x show ?thesis unfolding c
    by (intro exI[of _ fs1] exI[of _ ns1] exI[of _ fs2] exI[of _ ns2]) simp
qed

theorem C2_counterexample:
  "fst (scrapeOrg ex_clock ex_remote ex_config None) =
     Inr (results (snd (scrapeOrg ex_clock ex_remote ex_config None)),
          newState (snd (scrapeOrg ex_clock ex_remote ex_config None))) \<and>
   fst (scrapeOrg ex_clock_later ex_remote ex_config
          (Some (newState (snd (scrapeOrg ex_clock ex_remote ex_config None))))) =
     Inr ([],
          newState (snd (scrapeOrg ex_clock_later ex_remote ex_config
            (Some (newState (snd (scrapeOrg ex_clock ex_remote ex_config None))))))) \<and>
   lastScrape (newState (snd (scrapeOrg ex_clock ex_remote ex_config None))) = Some 1700000000000 \<and>
   lastScrape (newState (snd (scrapeOrg ex_clock_later ex_remote ex_config
       (Some (newState (snd (scrapeOrg ex_clock ex_remote ex_config None))))))) = Some 1700000600000 \<and>
   newState (snd (scrapeOrg ex_clock_later ex_remote ex_config
       (Some (newState (snd (scrapeOrg ex_clock ex_remote ex_config None)))))) \<noteq>
   newState (snd (scrapeOrg ex_clock ex_remote ex_config None))"
proof -
  let ?ns1 = "newState (snd (scrapeOrg ex_clock ex_remote ex_config None))"
  let ?ns2 = "newState (snd (scrapeOrg ex_clock_later ex_remote ex_config (Some ?ns1)))"
  have a: "fst (scrapeOrg ex_clock ex_remote ex_config None) =
     Inr (results (snd (scrapeOrg ex_clock ex_remote ex_config None)), ?ns1)"
    by (simp add: run_defs ex_defs)
  have b: "fst (scrapeOrg ex_clock_later ex_remote ex_config (Some ?ns1)) = Inr ([], ?ns2)"
    by (simp add: run_defs ex_defs)
  have c: "lastScrape ?ns1 = Some 1700000000000"
    by (simp add: run_defs ex_defs)
  have d: "lastScrape ?ns2 = Some 1700000600000"
    by (simp add: run_defs ex_defs)
  from c d have "?ns2 \<noteq> ?ns1" by auto
  with a b c d show ?thesis by blast
qed

text \<open>
  C9. scrapeOrg never mutates the previous store it receives: on a store of objects in
  which every object lies below the next address to be given out, whatever the remote
  answers and however the run ends (returned or rejected), every object that existed
  before the run is the same object after it; so, references in the store leading to
  objects only, every \<open>ScrapeState\<close> that could be read before the run (its buckets,
  entries, fingerprints and timestamps) reads the same after it. When the run returns,
  every object that can be reached from the returned store was created during the run:
  none of them existed before, so the new store shares no object with the previous one.
\<close>

theorem C9_previous_store_untouched:
  assumes "\<forall>a ob. cells h a = Some ob \<longrightarrow> a < fresh h"
  shows "(\<forall>a ob. cells h a = Some ob \<longrightarrow>
            cells (heap (snd (scrapeOrg_h clock env config prevArg h))) a = Some ob) \<and>
         (closed h \<longrightarrow>
            (\<forall>p s. read_state h p = Some s \<longrightarrow>
               read_state (heap (snd (scrapeOrg_h clock env config prevArg h))) p = Some s)) \<and>
         (\<forall>fs root. fst (scrapeOrg_h clock env config prevArg h) = Inr (fs, root) \<longrightarrow>
            (\<forall>b. reaches (heap (snd (scrapeOrg_h clock env config prevArg h))) root b \<longrightarrow>
               fresh h \<le> b \<and> cells h b = None))"
proof -
  let ?run = "snd (scrapeOrg_h clock env config prevArg h)"
  from scrapeOrg_h_inv[OF assms, of clock env config prevArg]
  have g: "grows h (heap ?run)" and n: "fresh h \<le> newStateRef ?run"
    by (simp_all add: run_inv_def)
  have frame: "\<forall>a ob. cells h a = Some ob \<longrightarrow> cells (heap ?run) a = Some ob"
  proof (intro allI impI)
    fix a ob assume c: "cells h a = Some ob"
    with assms have "a < fresh h" by blast
    with g have "cells (heap ?run) a = cells h a" unfolding grows_def by blast
    with c show "cells (heap ?run) a = Some ob" by simp
  qed
  have new: "fresh h \<le> b \<and> cells h b = None"
    if r: "fst (scrapeOrg_h clock env config prevArg h) = Inr (fs, root)"
      and b: "reaches (heap ?run) root b" for fs root b
  proof -
    from scrapeOrg_h_root[OF r] n have "fresh h \<le> root" by simp
    from grows_reaches[OF g b this] have le: "fresh h \<le> b" .
    have "cells h b = None"
    proof (cases "cells h b")
      case (Some ob)
      with assms have "b < fresh h" by blast
      with le show ?thesis by simp
    qed simp
    with le show ?thesis by simp
  qed
  from frame read_state_frame[OF _ frame] new show ?thesis by blast
qed

theorem C9_witness:
  "\<exists>fs root. fst (scrapeOrg_h ex_clock ex_remote ex_config (Some 8) ex_heap) = Inr (fs, root) \<and>
     fs \<noteq> [] \<and> fresh ex_heap \<le> root \<and> cells ex_heap root = None \<and>
     read_state ex_heap 8 = Some ex_prevState \<and>
     read_state (heap (snd (scrapeOrg_h ex_clock ex_remote ex_config (Some 8) ex_heap))) 8 =
       Some ex_prevState \<and>
     cells (heap (snd (scrapeOrg_h ex_clock ex_remote ex_config (Some 8) ex_heap))) 1 =
       Some (Entry ''old-sha'' (Some 1699999999000))"
proof -
  let ?run = "snd (scrapeOrg_h ex_clock ex_remote ex_config (Some 8) ex_heap)"
  have wf: "\<forall>a ob. cells ex_heap a = Some ob \<longrightarrow> a < fresh ex_heap"
    by (simp add: ex_heap_def)
  have cl: "closed ex_heap"
    by (auto simp: closed_def ex_heap_def split: if_splits)
  have ret: "fst (scrapeOrg_h ex_clock ex_remote ex_config (Some 8) ex_heap) =
     Inr ([\<lparr>ScrapedFile.repo = ''test-org/repo-a'', ScrapedFile.path = ''docs/guide.md'',
             content = ''# Content of repo-a/docs/guide.md'',
             ScrapedFile.sha = ''sha-guide-a''\<rparr>,
           \<lparr>ScrapedFile.repo = ''test-org/repo-b'', ScrapedFile.path = ''README.md'',
             content = ''# Content of repo-b/README.md'',
             ScrapedFile.sha = ''sha-readme-b''\<rparr>], 10)"
    by (simp add: heap_defs ex_defs ex_heap_def)
  have old: "cells ex_heap 1 = Some (Entry ''old-sha'' (Some 1699999999000))"
    by (simp add: ex_heap_def)
  have rd: "read_state ex_heap 8 = Some ex_prevState"
    by (simp add: read_state_def read_cache_def read_entry_def ex_heap_def ex_prevState_def fun_eq_iff)
  from C9_previous_store_untouched[OF wf, of ex_clock ex_remote ex_config "Some 8"] cl
  have a: "\<forall>a ob. cells ex_heap a = Some ob \<longrightarrow> cells (heap ?run) a = Some ob"
    and b: "\<forall>p s. read_state ex_heap p = Some s \<longrightarrow> read_state (heap ?run) p = Some s"
    and c: "\<forall>fs root. fst (scrapeOrg_h ex_clock ex_remote ex_config (Some 8) ex_heap) = Inr (fs, root) \<longrightarrow>
            (\<forall>b. reaches (heap ?run) root b \<longrightarrow> fresh ex_heap \<le> b \<and> cells ex_heap b = None)"
    by blast+
  from a old have 1: "cells (heap ?run) 1 = Some (Entry ''old-sha'' (Some 1699999999000))"
    by blast
  from b rd have 2: "read_state (heap ?run) 8 = Some ex_prevState" by blast
  from c ret reaches.here[of "heap ?run" 10]
  have 3: "fresh ex_heap \<le> 10 \<and> cells ex_heap 10 = None" by blast
  show ?thesis
    using ret 1 2 3 rd by simp
qed

end
